theory Spec2Isabelle
  imports Main "HOL-Library.Product_Lexorder" "HOL-Library.List_Lexorder"
begin

section \<open>GeMS\_DMUtoDocx\_AGP2: the DMU table as a list of styled paragraphs\<close>

text \<open>
  The script \<^verbatim>\<open>Scripts/GeMS_DMUtoDocx_AGP2.py\<close> reads the rows of the
  DescriptionOfMapUnits table in HierarchyKey order and appends paragraphs, each a list of
  runs, to a python-docx document.  The model below follows the script top to bottom.

  A Python \<^verbatim>\<open>str\<close> is a sequence of Unicode code points, so a text is a list of
  natural numbers; \<open>u\<close> turns an ASCII literal into such a list.  A table field is a text
  or \<^verbatim>\<open>None\<close>.  Calls of \<^verbatim>\<open>addMsgAndPrint\<close> only write to the
  geoprocessing log and are left out; so is the computation of the output file name.
  The document is what python-docx is asked to write: a paragraph is its style name and
  its runs, a run its text as given to \<^verbatim>\<open>add_run\<close>.  \<^verbatim>\<open>add_run\<close> raises
  ValueError for a text that lxml refuses.  The Word template is not among the sources;
  every style name that the script assigns is taken to be defined in it.
\<close>

subsection \<open>Python strings\<close>

type_synonym pystr = "nat list"

definition u :: "string \<Rightarrow> pystr" where
  "u cs = map of_char cs"

datatype error =
    TypeError | AttributeError | NameError pystr | IndexError | ValueError | StopIteration

text \<open>\<^verbatim>\<open>s.startswith(sub)\<close>\<close>

definition startswith :: "pystr \<Rightarrow> pystr \<Rightarrow> bool" where
  "startswith s sub \<longleftrightarrow> take (length sub) s = sub"

text \<open>The offset of the first occurrence of \<open>sub\<close> in \<open>s\<close>, if there is one.\<close>

fun find_idx :: "pystr \<Rightarrow> pystr \<Rightarrow> nat option" where
  "find_idx sub [] = (if sub = [] then Some 0 else None)"
| "find_idx sub (c # cs) =
     (if startswith (c # cs) sub then Some 0 else map_option Suc (find_idx sub cs))"

text \<open>\<^verbatim>\<open>sub in s\<close>\<close>

definition contains :: "pystr \<Rightarrow> pystr \<Rightarrow> bool" where
  "contains sub s \<longleftrightarrow> find_idx sub s \<noteq> None"

text \<open>\<^verbatim>\<open>s.find(sub)\<close> and \<^verbatim>\<open>s.find(sub, start)\<close> for \<open>start \<ge> 0\<close>: the
  lowest index at or after \<open>start\<close> where \<open>sub\<close> occurs, or \<open>-1\<close>.\<close>

definition py_find_from :: "pystr \<Rightarrow> pystr \<Rightarrow> nat \<Rightarrow> int" where
  "py_find_from s sub start =
     (if length s < start then - 1
      else case find_idx sub (drop start s) of
             None \<Rightarrow> - 1
           | Some k \<Rightarrow> int (start + k))"

definition py_find :: "pystr \<Rightarrow> pystr \<Rightarrow> int" where
  "py_find s sub = py_find_from s sub 0"

text \<open>\<^verbatim>\<open>s[i:j]\<close>: a negative index counts from the end, both indices are clamped to
  the text, and an empty range gives the empty text.\<close>

definition slice_index :: "nat \<Rightarrow> int \<Rightarrow> nat" where
  "slice_index n i = (if i < 0 then nat (max (i + int n) 0) else min (nat i) n)"

definition py_slice :: "pystr \<Rightarrow> int \<Rightarrow> int \<Rightarrow> pystr" where
  "py_slice s i j =
     (let a = slice_index (length s) i; b = slice_index (length s) j
      in take (b - a) (drop a s))"

text \<open>\<^verbatim>\<open>re.finditer(st, s)\<close> for a pattern without regular-expression operators
  (every opening marker of the catalog is one): the start offsets of the occurrences of
  \<open>st\<close>, scanning from the left and resuming after each match.  \<open>pos\<close> is the offset of
  \<open>s\<close> in the whole text.\<close>

function finditer :: "nat \<Rightarrow> pystr \<Rightarrow> pystr \<Rightarrow> nat list" where
  "finditer pos st s =
     (if st = [] then map (\<lambda>i. pos + i) [0..<Suc (length s)]
      else if startswith s st then pos # finditer (pos + length st) st (drop (length st) s)
      else case s of [] \<Rightarrow> [] | _ # s' \<Rightarrow> finditer (Suc pos) st s')"
  by pat_completeness auto
termination
proof (relation "measure (\<lambda>(pos, st, s). length s)")
  fix pos :: nat and st s :: pystr
  assume "st \<noteq> []" and "startswith s st"
  then have "s \<noteq> []"
    by (auto simp: startswith_def)
  with \<open>st \<noteq> []\<close> show "((pos + length st, st, drop (length st) s), (pos, st, s))
      \<in> measure (\<lambda>(pos, st, s). length s)"
    by simp
qed auto

declare finditer.simps [simp del]

subsection \<open>The tag catalog\<close>

definition tags :: "pystr list" where
  "tags = [u ''b'', u ''p'', u ''i'', u ''g'', u ''ul'', u ''sup'', u ''sub'']"

definition span_start :: pystr where
  "span_start = u ''<span style='' @ [34] @ u ''font-family: FGDCGeoAge'' @ [34] @ u ''>''"

definition startTags :: "pystr list" where
  "startTags = map (\<lambda>tag. u ''<'' @ tag @ u ''>'') tags @ [span_start]"

definition endTags :: "pystr list" where
  "endTags = map (\<lambda>tag. u ''</'' @ tag @ u ''>'') tags @ [u ''</span>'']"

text \<open>\<^verbatim>\<open>xs.index(x)\<close>, which raises ValueError when \<open>x\<close> is not in \<open>xs\<close>.\<close>

fun index :: "'a list \<Rightarrow> 'a \<Rightarrow> nat option" where
  "index [] x = None"
| "index (y # ys) x = (if y = x then Some 0 else map_option Suc (index ys x))"

text \<open>\<^verbatim>\<open>endTags[startTags.index(st)]\<close>\<close>

definition end_tag :: "pystr \<Rightarrow> error + pystr" where
  "end_tag st =
     (case index startTags st of
        None \<Rightarrow> Inl ValueError
      | Some k \<Rightarrow> if k < length endTags then Inr (endTags ! k) else Inl IndexError)"

subsection \<open>Runs and paragraphs\<close>

text \<open>A run as python-docx holds it: its text, its character style if one was given to
  \<^verbatim>\<open>add_run\<close>, and the font switches the script sets.\<close>

record run =
  rtext :: pystr
  rstyle :: "pystr option"
  bold :: bool
  italic :: bool
  superscript :: bool
  subscript :: bool

record para =
  pstyle :: "pystr option"
  runs :: "run list"

text \<open>python-docx writes the text of a run into XML elements, a tab, a line feed and a
  carriage return as elements of their own, and lxml refuses a text with a character that
  XML does not allow: a control character below U+0020 other than those three, a surrogate,
  U+FFFE or U+FFFF.\<close>

definition xml_compatible :: "nat \<Rightarrow> bool" where
  "xml_compatible c \<longleftrightarrow>
     (32 \<le> c \<or> c = 9 \<or> c = 10 \<or> c = 13) \<and> \<not> (55296 \<le> c \<and> c \<le> 57343) \<and> c \<noteq> 65534
     \<and> c \<noteq> 65535"

definition xml_text :: "pystr \<Rightarrow> bool" where
  "xml_text t \<longleftrightarrow> list_all xml_compatible t"

text \<open>The run that a call of \<^verbatim>\<open>add_run\<close> leaves in the paragraph when it
  returns.\<close>

definition new_run :: "pystr \<Rightarrow> pystr option \<Rightarrow> run" where
  "new_run t s =
     \<lparr>rtext = t, rstyle = s, bold = False, italic = False, superscript = False,
      subscript = False\<rparr>"

text \<open>\<^verbatim>\<open>paragraph.add_run(text, style)\<close>, which raises ValueError for a text that
  lxml refuses.\<close>

definition add_run :: "pystr \<Rightarrow> pystr option \<Rightarrow> error + run" where
  "add_run t s = (if xml_text t then Inr (new_run t s) else Inl ValueError)"

text \<open>The statement \<^verbatim>\<open>if text: paragraph.add_run(text)\<close>: no run for an empty
  text.\<close>

definition add_run_if :: "pystr \<Rightarrow> error + run list" where
  "add_run_if t =
     (if t \<noteq> [] then (case add_run t None of Inl e \<Rightarrow> Inl e | Inr r \<Rightarrow> Inr [r]) else Inr [])"

text \<open>\<^verbatim>\<open>document.add_paragraph(text, style)\<close>: python-docx adds a run only for a
  text that is neither \<^verbatim>\<open>None\<close> nor empty.\<close>

definition add_paragraph :: "pystr option \<Rightarrow> pystr option \<Rightarrow> error + para" where
  "add_paragraph t s =
     (case (case t of None \<Rightarrow> Inr [] | Some x \<Rightarrow> add_run_if x) of
        Inl e \<Rightarrow> Inl e
      | Inr rs \<Rightarrow> Inr \<lparr>pstyle = s, runs = rs\<rparr>)"

subsection \<open>add\_formatting\<close>

text \<open>The list comprehension \<^verbatim>\<open>[n for n in startTags if (n in ptext)]\<close>.\<close>

definition res :: "pystr \<Rightarrow> pystr list" where
  "res ptext = filter (\<lambda>n. contains n ptext) startTags"

text \<open>The loop \<^verbatim>\<open>for st in res\<close> that fills \<^verbatim>\<open>find_pos\<close> with the entries
  \<^verbatim>\<open>[begin, end, st]\<close>.\<close>

fun collect_pos :: "pystr \<Rightarrow> pystr list \<Rightarrow> error + (int \<times> int \<times> pystr) list" where
  "collect_pos ptext [] = Inr []"
| "collect_pos ptext (st # rest) =
     (case end_tag st of
        Inl e \<Rightarrow> Inl e
      | Inr et \<Rightarrow>
          (case collect_pos ptext rest of
             Inl e \<Rightarrow> Inl e
           | Inr later \<Rightarrow>
               Inr (map (\<lambda>begin. (int begin, py_find_from ptext et begin, st))
                      (finditer 0 st ptext) @ later)))"

text \<open>\<^verbatim>\<open>find_pos\<close> after \<^verbatim>\<open>find_pos.sort()\<close>: Python compares the entries as
  lists, that is lexicographically, and texts by code point.\<close>

definition find_pos :: "pystr \<Rightarrow> error + (int \<times> int \<times> pystr) list" where
  "find_pos ptext =
     (case collect_pos ptext (res ptext) of
        Inl e \<Rightarrow> Inl e
      | Inr raw \<Rightarrow> Inr (sort raw))"

text \<open>The \<^verbatim>\<open>if\<close>/\<^verbatim>\<open>elif\<close> chain on \<^verbatim>\<open>item[2]\<close>; it has no
  \<^verbatim>\<open>else\<close>, so the other tags add no run.\<close>

definition tagged_run :: "pystr \<Rightarrow> pystr \<Rightarrow> error + run list" where
  "tagged_run st tagged_text =
     (if st = u ''<b>'' then
        (case add_run tagged_text None of Inl e \<Rightarrow> Inl e | Inr r \<Rightarrow> Inr [r\<lparr>bold := True\<rparr>])
      else if st = u ''<i>'' then
        (case add_run tagged_text None of Inl e \<Rightarrow> Inl e | Inr r \<Rightarrow> Inr [r\<lparr>italic := True\<rparr>])
      else if st = u ''<sup>'' then
        (case add_run tagged_text None of
           Inl e \<Rightarrow> Inl e
         | Inr r \<Rightarrow> Inr [r\<lparr>superscript := True\<rparr>])
      else if st = u ''<sub>'' then
        (case add_run tagged_text None of
           Inl e \<Rightarrow> Inl e
         | Inr r \<Rightarrow> Inr [r\<lparr>subscript := True\<rparr>])
      else if st = span_start then
        (case add_run tagged_text (Some (u ''DMUUnitLabeltypestyle'')) of
           Inl e \<Rightarrow> Inl e
         | Inr r \<Rightarrow> Inr [r])
      else Inr [])"

text \<open>The loop \<^verbatim>\<open>for i, item in enumerate(find_pos)\<close>; the rest of the list stands
  for \<^verbatim>\<open>find_pos[i+1:]\<close>.\<close>

fun span_runs :: "pystr \<Rightarrow> (int \<times> int \<times> pystr) list \<Rightarrow> error + run list" where
  "span_runs ptext [] = Inr []"
| "span_runs ptext ((begin, end, st) # rest) =
     (let start = begin + int (length st);
          tagged_text = py_slice ptext start end
      in case tagged_run st tagged_text of
           Inl e \<Rightarrow> Inl e
         | Inr tagged \<Rightarrow>
             (case end_tag st of
                Inl e \<Rightarrow> Inl e
              | Inr et \<Rightarrow>
                  (let start_n = end + int (length et);
                       end_n = (case rest of [] \<Rightarrow> int (length ptext) | nxt # _ \<Rightarrow> fst nxt);
                       untagged_text = py_slice ptext start_n end_n
                   in case add_run_if untagged_text of
                        Inl e \<Rightarrow> Inl e
                      | Inr untagged \<Rightarrow>
                          (case span_runs ptext rest of
                             Inl e \<Rightarrow> Inl e
                           | Inr later \<Rightarrow> Inr (tagged @ untagged @ later)))))"

text \<open>The runs that \<^verbatim>\<open>add_formatting(paragraph, ptext)\<close> adds, in order.  A
  \<^verbatim>\<open>None\<close> text fails at \<^verbatim>\<open>n in ptext\<close>; an empty \<^verbatim>\<open>find_pos\<close> would
  fail at \<^verbatim>\<open>find_pos[0]\<close>; the first call of \<^verbatim>\<open>add_run\<close> that fails ends
  the function.\<close>

definition formatting_runs :: "pystr option \<Rightarrow> error + run list" where
  "formatting_runs p =
     (case p of
        None \<Rightarrow> Inl TypeError
      | Some ptext \<Rightarrow>
          if res ptext \<noteq> [] then
            (case find_pos ptext of
               Inl e \<Rightarrow> Inl e
             | Inr [] \<Rightarrow> Inl IndexError
             | Inr (first # others) \<Rightarrow>
                 (let before = py_slice ptext 0 (fst first)
                  in case add_run_if before of
                       Inl e \<Rightarrow> Inl e
                     | Inr before_run \<Rightarrow>
                         (case span_runs ptext (first # others) of
                            Inl e \<Rightarrow> Inl e
                          | Inr rs \<Rightarrow> Inr (before_run @ rs))))
          else (case add_run ptext None of Inl e \<Rightarrow> Inl e | Inr r \<Rightarrow> Inr [r]))"

definition add_formatting :: "para \<Rightarrow> pystr option \<Rightarrow> error + para" where
  "add_formatting pr p =
     (case formatting_runs p of
        Inl e \<Rightarrow> Inl e
      | Inr rs \<Rightarrow> Inr (pr\<lparr>runs := runs pr @ rs\<rparr>))"

subsection \<open>Splitting, replacing and blank tests\<close>

text \<open>\<^verbatim>\<open>s.split(sep)\<close>: the pieces between the occurrences of \<open>sep\<close>, found from the
  left; Python raises ValueError for an empty separator.\<close>

function split_on :: "pystr \<Rightarrow> pystr \<Rightarrow> pystr list" where
  "split_on sep s =
     (if sep = [] then [s]
      else case find_idx sep s of
             None \<Rightarrow> [s]
           | Some k \<Rightarrow> take k s # split_on sep (drop (k + length sep) s))"
  by pat_completeness auto
termination
proof (relation "measure (\<lambda>(sep, s). length s)")
  fix sep s :: pystr and k :: nat
  assume sep: "sep \<noteq> []" and found: "find_idx sep s = Some k"
  have bound: "find_idx sub t = Some j \<Longrightarrow> j + length sub \<le> length t" for sub t :: pystr and j
  proof (induction t arbitrary: j)
    case Nil
    then show ?case by (simp split: if_splits)
  next
    case (Cons c cs)
    show ?case
    proof (cases "startswith (c # cs) sub")
      case True
      with Cons.prems have "j = 0" by simp
      moreover from True have "length (take (length sub) (c # cs)) = length sub"
        unfolding startswith_def by simp
      then have "length sub \<le> length (c # cs)"
        by (simp add: min_def split: if_splits)
      ultimately show ?thesis by simp
    next
      case False
      with Cons.prems obtain j' where "find_idx sub cs = Some j'" and "j = Suc j'"
        by auto
      with Cons.IH show ?thesis by fastforce
    qed
  qed
  from bound [OF found] have "k + length sep \<le> length s" .
  moreover from sep have "0 < length sep"
    by simp
  ultimately have "length (drop (k + length sep) s) < length s"
    unfolding length_drop by linarith
  then show "((sep, drop (k + length sep) s), (sep, s)) \<in> measure (\<lambda>(sep, s). length s)"
    by simp
qed simp

declare split_on.simps [simp del]

definition str_split :: "pystr \<Rightarrow> pystr \<Rightarrow> error + pystr list" where
  "str_split s sep = (if sep = [] then Inl ValueError else Inr (split_on sep s))"

text \<open>\<^verbatim>\<open>s.replace(old, new)\<close>: every occurrence of \<open>old\<close>, found from the left and
  not overlapping, becomes \<open>new\<close>; an empty \<open>old\<close> matches before every character and at
  the end.\<close>

function replace_all :: "pystr \<Rightarrow> pystr \<Rightarrow> pystr \<Rightarrow> pystr" where
  "replace_all old new s =
     (if old = [] then new @ concat (map (\<lambda>c. c # new) s)
      else case find_idx old s of
             None \<Rightarrow> s
           | Some k \<Rightarrow> take k s @ new @ replace_all old new (drop (k + length old) s))"
  by pat_completeness auto
termination
proof (relation "measure (\<lambda>(old, new, s). length s)")
  fix old new s :: pystr and k :: nat
  assume old: "old \<noteq> []" and found: "find_idx old s = Some k"
  have bound: "find_idx sub t = Some j \<Longrightarrow> j + length sub \<le> length t" for sub t :: pystr and j
  proof (induction t arbitrary: j)
    case Nil
    then show ?case by (simp split: if_splits)
  next
    case (Cons c cs)
    show ?case
    proof (cases "startswith (c # cs) sub")
      case True
      with Cons.prems have "j = 0" by simp
      moreover from True have "length (take (length sub) (c # cs)) = length sub"
        unfolding startswith_def by simp
      then have "length sub \<le> length (c # cs)"
        by (simp add: min_def split: if_splits)
      ultimately show ?thesis by simp
    next
      case False
      with Cons.prems obtain j' where "find_idx sub cs = Some j'" and "j = Suc j'"
        by auto
      with Cons.IH show ?thesis by fastforce
    qed
  qed
  from bound [OF found] have "k + length old \<le> length s" .
  moreover from old have "0 < length old"
    by simp
  ultimately have "length (drop (k + length old) s) < length s"
    unfolding length_drop by linarith
  then show "((old, new, drop (k + length old) s), (old, new, s))
      \<in> measure (\<lambda>(old, new, s). length s)"
    by simp
qed simp

declare replace_all.simps [simp del]

text \<open>The line boundaries of \<^verbatim>\<open>str.splitlines\<close>: LF, VT, FF, CR, FS, GS, RS, NEL,
  LINE SEPARATOR and PARAGRAPH SEPARATOR; CR LF counts as one.\<close>

definition is_linebreak :: "nat \<Rightarrow> bool" where
  "is_linebreak c \<longleftrightarrow> c \<in> set [10, 11, 12, 13, 28, 29, 30, 133, 8232, 8233]"

text \<open>\<^verbatim>\<open>s.splitlines()\<close>; \<open>line\<close> is the line read so far.  A line break at the end of
  the text opens no further line.\<close>

fun splitlines_from :: "pystr \<Rightarrow> pystr \<Rightarrow> pystr list" where
  "splitlines_from line [] = (if line = [] then [] else [line])"
| "splitlines_from line [c] =
     (if is_linebreak c then line # splitlines_from [] [] else splitlines_from (line @ [c]) [])"
| "splitlines_from line (c # d # cs) =
     (if c = 13 \<and> d = 10 then line # splitlines_from [] cs
      else if is_linebreak c then line # splitlines_from [] (d # cs)
      else splitlines_from (line @ [c]) (d # cs))"

definition splitlines :: "pystr \<Rightarrow> pystr list" where
  "splitlines s = splitlines_from [] s"

text \<open>The code points for which \<^verbatim>\<open>str.isspace\<close> holds; \<^verbatim>\<open>s.split()\<close> without
  argument splits at runs of them and returns no empty piece.\<close>

definition is_space :: "nat \<Rightarrow> bool" where
  "is_space c \<longleftrightarrow>
     c \<in> set [9, 10, 11, 12, 13, 28, 29, 30, 31, 32, 133, 160, 5760, 8232, 8233, 8239, 8287,
              12288]
     \<or> (8192 \<le> c \<and> c \<le> 8202)"

fun split_ws_from :: "pystr \<Rightarrow> pystr \<Rightarrow> pystr list" where
  "split_ws_from word [] = (if word = [] then [] else [word])"
| "split_ws_from word (c # cs) =
     (if is_space c then (if word = [] then split_ws_from [] cs else word # split_ws_from [] cs)
      else split_ws_from (word @ [c]) cs)"

definition split_ws :: "pystr \<Rightarrow> pystr list" where
  "split_ws s = split_ws_from [] s"

definition isNotBlank :: "pystr option \<Rightarrow> bool" where
  "isNotBlank thing = (if thing \<noteq> Some [] \<and> thing \<noteq> None then True else False)"

definition notNullText :: "pystr option \<Rightarrow> bool" where
  "notNullText txt =
     (if txt = Some (u ''#null'') \<or> txt = None \<or> txt = Some (u ''#Null'') \<or> txt = Some (u ''#'')
         \<or> txt = Some [] \<or> (case txt of None \<Rightarrow> False | Some t \<Rightarrow> length (split_ws t) = 0)
      then False else True)"

text \<open>\<^verbatim>\<open>sep.join(xs)\<close>, to say what a split is: joining the pieces gives the text
  back.\<close>

fun py_join :: "pystr \<Rightarrow> pystr list \<Rightarrow> pystr" where
  "py_join sep [] = []"
| "py_join sep [x] = x"
| "py_join sep (x # y # ys) = x @ sep @ py_join sep (y # ys)"

subsection \<open>Rows, configuration and the state of the script\<close>

text \<open>A row of the search cursor, with the fields in the order of \<^verbatim>\<open>fields\<close>
  (\<^verbatim>\<open>row[0]\<close> to \<^verbatim>\<open>row[6]\<close>).\<close>

record row =
  mapunit :: "pystr option"
  label :: "pystr option"
  name :: "pystr option"
  age :: "pystr option"
  description :: "pystr option"
  paragraphstyle :: "pystr option"
  hierarchykey :: "pystr option"

text \<open>The two switches read from \<^verbatim>\<open>sys.argv[4]\<close> and \<^verbatim>\<open>sys.argv[5]\<close>.\<close>

record config =
  useMapUnitForUnitLabl :: bool
  isLMU :: bool

text \<open>The module variables that the row loop reads and writes: the flag, the variable
  \<^verbatim>\<open>abbrv\<close> (\<open>None\<close> while it is not bound) and the paragraphs of the document.\<close>

record state =
  lastParaWasHeading :: bool
  abbrv :: "pystr option"
  document :: "para list"

definition emDash :: pystr where
  "emDash = [8212]"

text \<open>The values the script compares with \<^verbatim>\<open>==\<close> and \<^verbatim>\<open>in\<close>: a text, an
  integer, or the bound method \<^verbatim>\<open>obj.attr\<close> of a text.  Values of different kinds are
  never equal.\<close>

datatype pyval = PyStr pystr | PyInt int | PyMethod pystr pystr

subsection \<open>The description of a unit\<close>

text \<open>The list \<^verbatim>\<open>paras\<close> built from \<^verbatim>\<open>desc_text\<close>.\<close>

definition paras :: "pystr \<Rightarrow> error + pystr list" where
  "paras desc_text =
     (if contains (u ''<br>'') desc_text then str_split desc_text (u ''<br>'')
      else if contains (u ''<p>'') desc_text then
        (case str_split desc_text (u ''<p>'') of
           Inl e \<Rightarrow> Inl e
         | Inr ps \<Rightarrow> Inr (map (\<lambda>t. replace_all (u ''</p>'') [] t) ps))
      else Inr (splitlines desc_text))"

text \<open>The loop \<^verbatim>\<open>for i in range(1, len(paras))\<close> over the pieces after the first.\<close>

fun continuation :: "pystr list \<Rightarrow> error + para list" where
  "continuation [] = Inr []"
| "continuation (t # ts) =
     (case add_paragraph None (Some (u ''DMUParagraph'')) of
        Inl e \<Rightarrow> Inl e
      | Inr addP0 \<Rightarrow>
          (case add_formatting addP0 (Some t) of
             Inl e \<Rightarrow> Inl e
           | Inr addP \<Rightarrow>
               (case continuation ts of
                  Inl e \<Rightarrow> Inl e
                | Inr later \<Rightarrow> Inr (addP # later))))"

text \<open>The body of \<^verbatim>\<open>if isNotBlank(row[4]) and not isLMU\<close>: the unit paragraph with
  the em dash and the runs of the first piece, followed by the continuation paragraphs.
  \<^verbatim>\<open>paras[0]\<close> raises IndexError on an empty list.\<close>

definition describe :: "para \<Rightarrow> pystr \<Rightarrow> error + para list" where
  "describe unit desc_text =
     (case paras desc_text of
        Inl e \<Rightarrow> Inl e
      | Inr ps \<Rightarrow>
          (case add_run emDash None of
             Inl e \<Rightarrow> Inl e
           | Inr dash \<Rightarrow>
               (let unit1 = unit\<lparr>runs := runs unit @ [dash]\<rparr>
                in case ps of
                     [] \<Rightarrow> Inl IndexError
                   | first # others \<Rightarrow>
                       (case add_formatting unit1 (Some first) of
                          Inl e \<Rightarrow> Inl e
                        | Inr unit2 \<Rightarrow>
                            (case continuation others of
                               Inl e \<Rightarrow> Inl e
                             | Inr addPs \<Rightarrow> Inr (unit2 # addPs))))))"

subsection \<open>One row of the loop\<close>

text \<open>The branch \<^verbatim>\<open>row[5].find('DMU-Heading') > -1\<close>.\<close>

definition heading_row :: "state \<Rightarrow> row \<Rightarrow> error + state" where
  "heading_row s r =
     (case add_paragraph None (paragraphstyle r) of
        Inl e \<Rightarrow> Inl e
      | Inr header_pr0 \<Rightarrow>
          (case add_formatting header_pr0 (name r) of
             Inl e \<Rightarrow> Inl e
           | Inr header_pr \<Rightarrow>
               if notNullText (description r) then
                 (case add_paragraph None (Some (u ''DMUHeadnote'')) of
                    Inl e \<Rightarrow> Inl e
                  | Inr headnote0 \<Rightarrow>
                      (case add_formatting headnote0 (description r) of
                         Inl e \<Rightarrow> Inl e
                       | Inr headnote \<Rightarrow>
                           Inr (s\<lparr>document := document s @ [header_pr, headnote]\<rparr>)))
               else Inr (s\<lparr>document := document s @ [header_pr]\<rparr>)))"

text \<open>The assignments to \<^verbatim>\<open>abbrv\<close> before \<^verbatim>\<open>'{}\t'.format(abbrv)\<close>: when
  neither condition holds the variable keeps what an earlier row left in it.\<close>

definition choose_abbrv :: "config \<Rightarrow> state \<Rightarrow> row \<Rightarrow> pystr option" where
  "choose_abbrv cfg s r =
     (if \<not> useMapUnitForUnitLabl cfg \<and> notNullText (label r) then label r
      else if useMapUnitForUnitLabl cfg \<and> notNullText (mapunit r) then mapunit r
      else abbrv s)"

text \<open>\<^verbatim>\<open>abbrv\<close> after \<^verbatim>\<open>abbrv = '{}\t'.format(abbrv)\<close> and the second tab for
  a style that ends in 4 or 5; \<open>p5\<close> is \<^verbatim>\<open>row[5]\<close>.\<close>

definition tabbed :: "pystr \<Rightarrow> pystr \<Rightarrow> pystr" where
  "tabbed a p5 =
     (let abbrv1 = a @ [9]
      in if py_slice p5 (- 1) (int (length p5)) \<in> set [u ''4'', u ''5'']
         then abbrv1 @ [9] else abbrv1)"

text \<open>A field that is \<^verbatim>\<open>None\<close> or a text that \<^verbatim>\<open>add_run\<close> accepts.\<close>

definition xml_field :: "pystr option \<Rightarrow> bool" where
  "xml_field x = (case x of None \<Rightarrow> True | Some t \<Rightarrow> xml_text t)"

text \<open>The runs that open a unit paragraph: the abbreviation with its tabs, the name and
  the age, each by a call of \<^verbatim>\<open>unit.add_run\<close>.\<close>

definition leading_runs :: "pystr \<Rightarrow> row \<Rightarrow> error + run list" where
  "leading_runs abbrv2 r =
     (case add_run abbrv2 (Some (u ''DMUUnitLabeltypestyle'')) of
        Inl e \<Rightarrow> Inl e
      | Inr label_run \<Rightarrow>
          (case (if isNotBlank (name r) then
                   (case name r of
                      None \<Rightarrow> Inr []
                    | Some n \<Rightarrow>
                        (case add_run n (Some (u ''DMUUnitNameAgetypestyle'')) of
                           Inl e \<Rightarrow> Inl e
                         | Inr x \<Rightarrow> Inr [x]))
                 else Inr []) of
             Inl e \<Rightarrow> Inl e
           | Inr name_run \<Rightarrow>
               (case (if isNotBlank (age r) then
                        (case age r of
                           None \<Rightarrow> Inr []
                         | Some a \<Rightarrow>
                             (case add_run (u ''('' @ a @ u '')'') None of
                                Inl e \<Rightarrow> Inl e
                              | Inr x \<Rightarrow> Inr [x]))
                      else Inr []) of
                  Inl e \<Rightarrow> Inl e
                | Inr age_run \<Rightarrow> Inr (label_run # name_run @ age_run))))"

text \<open>What \<open>leading_runs\<close> returns when every call of \<^verbatim>\<open>add_run\<close> in it
  returns: the label run, the name run for a name that is not blank, and the run of the
  age in parentheses for an age that is not blank.\<close>

definition label_name_age :: "pystr \<Rightarrow> row \<Rightarrow> run list" where
  "label_name_age abbrv2 r =
     new_run abbrv2 (Some (u ''DMUUnitLabeltypestyle''))
     # (case name r of
          None \<Rightarrow> []
        | Some n \<Rightarrow> if n = [] then [] else [new_run n (Some (u ''DMUUnitNameAgetypestyle''))])
     @ (case age r of
          None \<Rightarrow> []
        | Some a \<Rightarrow> if a = [] then [] else [new_run (u ''('' @ a @ u '')'') None])"

text \<open>The branch \<^verbatim>\<open>row[5].find('DMUUnit') > -1\<close>; \<open>p5\<close> is \<^verbatim>\<open>row[5]\<close>.  Reading
  an unbound \<^verbatim>\<open>abbrv\<close> raises NameError.\<close>

definition unit_row :: "config \<Rightarrow> state \<Rightarrow> row \<Rightarrow> pystr \<Rightarrow> error + state" where
  "unit_row cfg s r p5 =
     (let unit_style = (if lastParaWasHeading s then u ''DMUUnit11stafterheading'' else p5)
      in case choose_abbrv cfg s r of
           None \<Rightarrow> Inl (NameError (u ''abbrv''))
         | Some a \<Rightarrow>
             (let abbrv2 = tabbed a p5
              in case leading_runs abbrv2 r of
                   Inl e \<Rightarrow> Inl e
                 | Inr leading \<Rightarrow>
                     (let unit = \<lparr>pstyle = Some unit_style, runs = leading\<rparr>;
                          flag = (py_find p5 (u ''Head'') > - 1)
                      in if isNotBlank (description r) \<and> \<not> isLMU cfg then
                           (case description r of
                              None \<Rightarrow> Inl TypeError
                            | Some desc_text \<Rightarrow>
                                (case describe unit desc_text of
                                   Inl e \<Rightarrow> Inl e
                                 | Inr ps \<Rightarrow>
                                     Inr (s\<lparr>lastParaWasHeading := flag, abbrv := Some abbrv2,
                                            document := document s @ ps\<rparr>)))
                         else Inr (s\<lparr>lastParaWasHeading := flag, abbrv := Some abbrv2,
                                    document := document s @ [unit]\<rparr>))))"

text \<open>The body of \<^verbatim>\<open>for row in dmuRows\<close>.  \<^verbatim>\<open>row[5].find\<close> on a
  \<^verbatim>\<open>None\<close> style raises AttributeError; an unrecognised style only writes a
  message.\<close>

definition process_row :: "config \<Rightarrow> state \<Rightarrow> row \<Rightarrow> error + state" where
  "process_row cfg s r =
     (case paragraphstyle r of
        None \<Rightarrow> Inl AttributeError
      | Some p5 \<Rightarrow>
          if py_find p5 (u ''DMU-Heading'') > - 1 then heading_row s r
          else if py_find p5 (u ''DMUUnit'') > - 1 then unit_row cfg s r p5
          else Inr s)"

fun process_rows :: "config \<Rightarrow> state \<Rightarrow> row list \<Rightarrow> error + state" where
  "process_rows cfg s [] = Inr s"
| "process_rows cfg s (r # rs) =
     (case process_row cfg s r of
        Inl e \<Rightarrow> Inl e
      | Inr s' \<Rightarrow> process_rows cfg s' rs)"

subsection \<open>The script\<close>

text \<open>The test \<^verbatim>\<open>first_row[2].lower in [...]\<close>: the attribute is not called, so the
  left side is the bound method.\<close>

definition title_placeholder :: "pystr \<Rightarrow> bool" where
  "title_placeholder nm \<longleftrightarrow>
     PyMethod nm (u ''lower'')
       \<in> set [PyStr (u ''description of map units''), PyStr (u ''list of map units'')]"

text \<open>The test \<^verbatim>\<open>sys.argv[4] == 3\<close> that guards \<^verbatim>\<open>print(Null)\<close>.\<close>

definition null_branch :: "pystr \<Rightarrow> bool" where
  "null_branch a4 \<longleftrightarrow> PyStr a4 = PyInt 3"

text \<open>The script from \<^verbatim>\<open>gdb = sys.argv[1]\<close> to \<^verbatim>\<open>document.save\<close>: \<open>argv\<close> is
  \<^verbatim>\<open>sys.argv\<close>, \<open>dmuRows\<close> the rows the cursor yields, and the result the paragraphs
  of the saved document.  The template's content is cleared, so the document starts
  empty.  \<^verbatim>\<open>dmuRows.next()\<close> raises StopIteration at the end of the cursor.\<close>

definition main :: "pystr list \<Rightarrow> row list \<Rightarrow> error + para list" where
  "main argv dmuRows =
     (if length argv < 6 then Inl IndexError
      else
        let cfg = \<lparr>useMapUnitForUnitLabl = (argv ! 4 = u ''true''), isLMU = (argv ! 5 = u ''true'')\<rparr>
        in case (if isLMU cfg
                 then add_paragraph (Some (u ''LIST OF MAP UNITS'')) (Some (u ''DMU-Heading1''))
                 else add_paragraph (Some (u ''DESCRIPTION OF MAP UNITS''))
                        (Some (u ''DMU-Heading1''))) of
             Inl e \<Rightarrow> Inl e
           | Inr title \<Rightarrow>
               (case dmuRows of
                  [] \<Rightarrow> Inl StopIteration
                | first_row # rest \<Rightarrow>
                    (case name first_row of
                       None \<Rightarrow> Inl AttributeError
                     | Some nm \<Rightarrow>
                         (case (if title_placeholder nm
                                then (case rest of
                                        [] \<Rightarrow> Inl StopIteration
                                      | _ # rest' \<Rightarrow> Inr rest')
                                else Inr rest) of
                            Inl e \<Rightarrow> Inl e
                          | Inr remaining \<Rightarrow>
                              (case (if paragraphstyle first_row = Some (u ''DMUHeadnote'')
                                        \<and> \<not> isLMU cfg
                                     then (case add_paragraph (description first_row)
                                                  (Some (u ''DMUHeadnote'')) of
                                             Inl e \<Rightarrow> Inl e
                                           | Inr p \<Rightarrow> Inr [p])
                                     else Inr []) of
                                 Inl e \<Rightarrow> Inl e
                               | Inr headnote \<Rightarrow>
                                   (let s0 = \<lparr>lastParaWasHeading = False, abbrv = None,
                                              document = title # headnote\<rparr>
                                    in case process_rows cfg s0 remaining of
                                         Inl e \<Rightarrow> Inl e
                                       | Inr s \<Rightarrow>
                                           if null_branch (argv ! 4)
                                           then Inl (NameError (u ''Null''))
                                           else Inr (document s)))))))"

subsection \<open>The text without its marker pairs\<close>

text \<open>What the coverage property compares the runs with.  A span of \<^verbatim>\<open>find_pos\<close>
  that has a closing marker (\<open>end \<ge> 0\<close>) is a recognised marker pair: its opening marker
  covers the offsets from \<open>begin\<close>, its closing marker those from \<open>end\<close>.  The stripped
  text keeps, in order, the characters that no marker of a pair covers.\<close>

definition in_marker :: "(int \<times> int \<times> pystr) list \<Rightarrow> nat \<Rightarrow> bool" where
  "in_marker fp i =
     list_ex (\<lambda>(begin, end, st).
        case end_tag st of
          Inl e \<Rightarrow> False
        | Inr et \<Rightarrow>
            0 \<le> end \<and> ((begin \<le> int i \<and> int i < begin + int (length st))
                        \<or> (end \<le> int i \<and> int i < end + int (length et)))) fp"

text \<open>The characters from offset \<open>c\<close> on that no marker covers.\<close>

definition kept :: "pystr \<Rightarrow> nat \<Rightarrow> (int \<times> int \<times> pystr) list \<Rightarrow> pystr" where
  "kept ptext c fp = map ((!) ptext) (filter (\<lambda>i. \<not> in_marker fp i) [c..<length ptext])"

definition remove_markers :: "pystr \<Rightarrow> (int \<times> int \<times> pystr) list \<Rightarrow> pystr" where
  "remove_markers ptext fp = kept ptext 0 fp"

definition strip_markers :: "pystr \<Rightarrow> pystr" where
  "strip_markers ptext =
     (case find_pos ptext of Inl e \<Rightarrow> ptext | Inr fp \<Rightarrow> remove_markers ptext fp)"

text \<open>A text \<open>t\<close> read from the offsets \<open>x\<close> to \<open>y\<close> of \<open>ptext\<close>, at or after \<open>lo\<close>,
  none of them covered by a marker.\<close>

definition clear_piece :: "pystr \<Rightarrow> (int \<times> int \<times> pystr) list \<Rightarrow> nat \<Rightarrow> pystr \<Rightarrow> bool" where
  "clear_piece ptext fp lo t \<longleftrightarrow>
     (\<exists>x y. lo \<le> x \<and> y \<le> length ptext \<and> t = map ((!) ptext) [x..<y]
        \<and> (\<forall>i. x \<le> i \<and> i < y \<longrightarrow> \<not> in_marker fp i))"

text \<open>The tags for which \<^verbatim>\<open>add_formatting\<close> adds a run.\<close>

definition style_tags :: "pystr list" where
  "style_tags = [u ''<b>'', u ''<i>'', u ''<sup>'', u ''<sub>'', span_start]"

text \<open>Spans as the loop over \<^verbatim>\<open>find_pos\<close> expects them: each of a style tag, with
  its closing marker after its opening marker, and starting no earlier than the offset
  \<open>cur\<close> where the span before it ended.\<close>

fun spans_ok :: "pystr \<Rightarrow> int \<Rightarrow> (int \<times> int \<times> pystr) list \<Rightarrow> bool" where
  "spans_ok ptext cur [] = True"
| "spans_ok ptext cur ((begin, end, st) # rest) =
     (st \<in> set style_tags \<and> cur \<le> begin \<and>
      (case end_tag st of
         Inl e \<Rightarrow> False
       | Inr et \<Rightarrow>
           begin + int (length st) \<le> end \<and> end + int (length et) \<le> int (length ptext) \<and>
           spans_ok ptext (end + int (length et)) rest))"

definition well_formed :: "pystr \<Rightarrow> bool" where
  "well_formed ptext =
     (case find_pos ptext of Inl e \<Rightarrow> False | Inr fp \<Rightarrow> spans_ok ptext 0 fp)"

subsection \<open>Sample input\<close>

text \<open>A command line for a full description of map units labelled from the Label field, one
  for a list of map units, and four rows: a title row, a heading, a unit, and a unit with
  neither abbreviation field filled in.\<close>

definition ex_argv :: "pystr list" where
  "ex_argv = [u ''GeMS_DMUtoDocx_AGP2.py'', u ''map.gdb'', u ''out'', u ''dmu'', u ''false'',
              u ''false'']"

definition ex_argv_lmu :: "pystr list" where
  "ex_argv_lmu = [u ''GeMS_DMUtoDocx_AGP2.py'', u ''map.gdb'', u ''out'', u ''lmu'', u ''false'',
                  u ''true'']"

definition ex_title :: row where
  "ex_title =
     \<lparr>mapunit = None, label = None, name = Some (u ''Description of Map Units''), age = None,
      description = None, paragraphstyle = Some (u ''DMU-Heading1''),
      hierarchykey = Some (u ''1'')\<rparr>"

definition ex_heading :: row where
  "ex_heading =
     \<lparr>mapunit = None, label = None, name = Some (u ''SURFICIAL DEPOSITS''), age = None,
      description = None, paragraphstyle = Some (u ''DMU-Heading2''),
      hierarchykey = Some (u ''1-1'')\<rparr>"

definition ex_qal :: row where
  "ex_qal =
     \<lparr>mapunit = Some (u ''Qal''), label = Some (u ''Qal''), name = Some (u ''Alluvium''),
      age = Some (u ''Holocene''), description = Some [],
      paragraphstyle = Some (u ''DMUUnit1''), hierarchykey = Some (u ''1-1-1'')\<rparr>"

definition ex_qt :: row where
  "ex_qt =
     \<lparr>mapunit = None, label = None, name = Some (u ''Terrace deposits''),
      age = None, description = Some [],
      paragraphstyle = Some (u ''DMUUnit1''), hierarchykey = Some (u ''1-1-2'')\<rparr>"

definition ex_doc_title :: para where
  "ex_doc_title =
     \<lparr>pstyle = Some (u ''DMU-Heading1''),
      runs = [new_run (u ''DESCRIPTION OF MAP UNITS'') None]\<rparr>"

definition ex_cfg_lmu :: config where
  "ex_cfg_lmu = \<lparr>useMapUnitForUnitLabl = False, isLMU = True\<rparr>"

definition ex_cfg :: config where
  "ex_cfg = \<lparr>useMapUnitForUnitLabl = False, isLMU = False\<rparr>"

definition ex_state :: state where
  "ex_state = \<lparr>lastParaWasHeading = False, abbrv = None, document = [ex_doc_title]\<rparr>"

section \<open>Properties\<close>

subsection \<open>Evaluation rules\<close>

lemma finditer_Nil: "finditer pos st [] = (if st = [] then [pos] else [])"
  by (simp add: finditer.simps [of pos st "[]"] startswith_def)

lemma finditer_Cons:
  "finditer pos st (c # cs) =
     (if st = [] then map (\<lambda>i. pos + i) [0..<Suc (Suc (length cs))]
      else if startswith (c # cs) st
        then pos # finditer (pos + length st) st (drop (length st) (c # cs))
      else finditer (Suc pos) st cs)"
  by (simp add: finditer.simps [of pos st "c # cs"])

lemma split_on_None: "find_idx sep s = None \<Longrightarrow> split_on sep s = [s]"
  by (simp add: split_on.simps [of sep s])

lemma split_on_Some:
  "find_idx sep s = Some k \<Longrightarrow> sep \<noteq> [] \<Longrightarrow>
   split_on sep s = take k s # split_on sep (drop (k + length sep) s)"
  by (simp add: split_on.simps [of sep s])

lemma replace_all_None:
  "find_idx old s = None \<Longrightarrow> old \<noteq> [] \<Longrightarrow> replace_all old new s = s"
  by (simp add: replace_all.simps [of old new s])

lemma replace_all_Some:
  "find_idx old s = Some k \<Longrightarrow> old \<noteq> [] \<Longrightarrow>
   replace_all old new s = take k s @ new @ replace_all old new (drop (k + length old) s)"
  by (simp add: replace_all.simps [of old new s])

lemmas string_eval = u_def startswith_def contains_def py_find_from_def py_find_def
  slice_index_def py_slice_def finditer_Nil finditer_Cons split_on_None split_on_Some
  replace_all_None replace_all_Some str_split_def is_linebreak_def splitlines_def
  is_space_def split_ws_def isNotBlank_def notNullText_def

lemmas catalog_eval = tags_def span_start_def startTags_def endTags_def end_tag_def

lemmas formatting_eval = xml_compatible_def xml_text_def new_run_def add_run_def add_run_if_def
  add_paragraph_def res_def find_pos_def tagged_run_def formatting_runs_def add_formatting_def
  Let_def

lemmas script_eval = emDash_def paras_def describe_def heading_row_def choose_abbrv_def
  tabbed_def leading_runs_def unit_row_def process_row_def title_placeholder_def
  null_branch_def main_def

lemmas sample_eval = ex_argv_def ex_argv_lmu_def ex_title_def ex_heading_def ex_qal_def
  ex_qt_def ex_doc_title_def ex_cfg_def ex_cfg_lmu_def ex_state_def

subsection \<open>First occurrences\<close>

lemma isNotBlank_iff: "isNotBlank t \<longleftrightarrow> t \<noteq> Some [] \<and> t \<noteq> None"
  by (simp add: isNotBlank_def)

lemma startswith_length: "startswith s sub \<Longrightarrow> length sub \<le> length s"
proof -
  assume "startswith s sub"
  then have "length (take (length sub) s) = length sub"
    by (simp add: startswith_def)
  then show ?thesis
    by (simp add: min_def split: if_splits)
qed

lemma find_idx_bound: "find_idx sub s = Some k \<Longrightarrow> k + length sub \<le> length s"
proof (induction s arbitrary: k)
  case Nil
  then show ?case by (simp split: if_splits)
next
  case (Cons c cs)
  show ?case
  proof (cases "startswith (c # cs) sub")
    case True
    with Cons.prems startswith_length [OF True] show ?thesis by simp
  next
    case False
    with Cons.prems obtain j where "find_idx sub cs = Some j" and "k = Suc j"
      by auto
    with Cons.IH show ?thesis by fastforce
  qed
qed

lemma find_idx_match: "find_idx sub s = Some k \<Longrightarrow> startswith (drop k s) sub"
proof (induction s arbitrary: k)
  case Nil
  then show ?case by (simp add: startswith_def split: if_splits)
next
  case (Cons c cs)
  show ?case
  proof (cases "startswith (c # cs) sub")
    case True
    with Cons.prems show ?thesis by simp
  next
    case False
    with Cons.prems obtain j where "find_idx sub cs = Some j" and "k = Suc j"
      by auto
    with Cons.IH show ?thesis by simp
  qed
qed

lemma find_idx_first: "find_idx sub s = Some k \<Longrightarrow> j < k \<Longrightarrow> \<not> startswith (drop j s) sub"
proof (induction s arbitrary: k j)
  case Nil
  then show ?case by (simp split: if_splits)
next
  case (Cons c cs)
  show ?case
  proof (cases "startswith (c # cs) sub")
    case True
    with Cons.prems show ?thesis by simp
  next
    case False
    with Cons.prems obtain k' where k': "find_idx sub cs = Some k'" "k = Suc k'"
      by auto
    show ?thesis
    proof (cases j)
      case 0
      with False show ?thesis by simp
    next
      case (Suc j')
      with Cons.prems k' have "j' < k'" by simp
      from Cons.IH [OF k'(1) this] Suc show ?thesis by simp
    qed
  qed
qed

lemma find_idx_None: "find_idx sub s = None \<Longrightarrow> \<not> startswith (drop j s) sub"
proof (induction s arbitrary: j)
  case Nil
  then show ?case by (simp add: startswith_def split: if_splits)
next
  case (Cons c cs)
  then have no: "\<not> startswith (c # cs) sub" and rest: "find_idx sub cs = None"
    by (auto split: if_splits)
  show ?case
  proof (cases j)
    case 0
    with no show ?thesis by simp
  next
    case (Suc j')
    with Cons.IH [OF rest] show ?thesis by simp
  qed
qed

lemma find_idx_split:
  assumes "find_idx sub s = Some k"
  shows "s = take k s @ sub @ drop (k + length sub) s"
proof -
  from find_idx_match [OF assms] have "take (length sub) (drop k s) = sub"
    by (simp add: startswith_def)
  then have "drop k s = sub @ drop (length sub) (drop k s)"
    by (metis append_take_drop_id)
  then have "drop k s = sub @ drop (k + length sub) s"
    by (simp add: add.commute)
  then show ?thesis
    by (metis append_take_drop_id)
qed

lemma startswith_take:
  assumes "startswith (drop j (take k s)) sub" and "sub \<noteq> []"
  shows "startswith (drop j s) sub \<and> j < k"
proof -
  from startswith_length [OF assms(1)] assms(2) have len: "j + length sub \<le> k" "j < k"
    by (cases sub; simp)+
  from assms(1) have "take (length sub) (drop j (take k s)) = sub"
    by (simp add: startswith_def)
  moreover have "drop j (take k s) = take (k - j) (drop j s)"
    by (simp add: drop_take)
  ultimately have "take (length sub) (take (k - j) (drop j s)) = sub"
    by simp
  moreover from len have "min (length sub) (k - j) = length sub"
    by simp
  ultimately have "take (length sub) (drop j s) = sub"
    by (simp add: take_take)
  with len show ?thesis
    by (simp add: startswith_def)
qed

lemma find_idx_piece:
  assumes "find_idx sub s = Some k" and "sub \<noteq> []"
  shows "\<not> contains sub (take k s)"
proof
  assume "contains sub (take k s)"
  then obtain j where "find_idx sub (take k s) = Some j"
    by (auto simp: contains_def)
  then have "startswith (drop j (take k s)) sub"
    by (rule find_idx_match)
  from startswith_take [OF this assms(2)] find_idx_first [OF assms(1)] show False
    by blast
qed

subsection \<open>Splitting\<close>

lemma split_on_nonempty: "split_on sep s \<noteq> []"
  by (simp add: split_on.simps [of sep s] split: option.splits)

lemma split_on_join: "sep \<noteq> [] \<Longrightarrow> py_join sep (split_on sep s) = s"
proof (induction sep s rule: split_on.induct)
  case (1 sep s)
  show ?case
  proof (cases "find_idx sep s")
    case None
    then show ?thesis by (simp add: split_on_None)
  next
    case (Some k)
    from "1.IH" [OF "1.prems" Some] "1.prems"
    have IH: "py_join sep (split_on sep (drop (k + length sep) s)) = drop (k + length sep) s"
      by simp
    obtain x xs where "split_on sep (drop (k + length sep) s) = x # xs"
      using split_on_nonempty by (cases "split_on sep (drop (k + length sep) s)") auto
    with IH have "py_join sep (take k s # split_on sep (drop (k + length sep) s))
        = take k s @ sep @ drop (k + length sep) s"
      by simp
    with find_idx_split [OF Some] show ?thesis
      using "1.prems" Some by (simp add: split_on_Some)
  qed
qed

lemma split_on_pieces: "sep \<noteq> [] \<Longrightarrow> p \<in> set (split_on sep s) \<Longrightarrow> \<not> contains sep p"
proof (induction sep s rule: split_on.induct)
  case (1 sep s)
  show ?case
  proof (cases "find_idx sep s")
    case None
    with "1.prems" show ?thesis
      by (simp add: split_on_None contains_def)
  next
    case (Some k)
    with "1.prems" have "p = take k s \<or> p \<in> set (split_on sep (drop (k + length sep) s))"
      by (simp add: split_on_Some)
    then show ?thesis
    proof
      assume "p = take k s"
      with find_idx_piece [OF Some "1.prems"(1)] show ?thesis by simp
    next
      assume "p \<in> set (split_on sep (drop (k + length sep) s))"
      with "1.IH" [OF "1.prems"(1) Some] "1.prems"(1) show ?thesis by simp
    qed
  qed
qed

lemma splitlines_from_nonempty: "line \<noteq> [] \<or> s \<noteq> [] \<Longrightarrow> splitlines_from line s \<noteq> []"
  by (induction line s rule: splitlines_from.induct) auto

lemma splitlines_from_no_break:
  "\<forall>c\<in>set s. \<not> is_linebreak c \<Longrightarrow>
   splitlines_from line s = (if line @ s = [] then [] else [line @ s])"
  by (induction line s rule: splitlines_from.induct) (auto simp: is_linebreak_def)

lemma marker_nonempty: "u ''<br>'' \<noteq> []" "u ''<p>'' \<noteq> []"
  by (simp_all add: u_def)

lemma paras_cases:
  "paras d =
     (if contains (u ''<br>'') d then Inr (split_on (u ''<br>'') d)
      else if contains (u ''<p>'') d
        then Inr (map (\<lambda>t. replace_all (u ''</p>'') [] t) (split_on (u ''<p>'') d))
      else Inr (splitlines d))"
  by (simp add: paras_def str_split_def marker_nonempty)

lemma paras_has_first:
  assumes "d \<noteq> []"
  shows "\<exists>first others. paras d = Inr (first # others)"
proof -
  have ne: "\<exists>x xs. ys = x # xs" if "ys \<noteq> []" for ys :: "pystr list"
    using that by (cases ys) auto
  consider (br) "contains (u ''<br>'') d"
    | (p) "\<not> contains (u ''<br>'') d" "contains (u ''<p>'') d"
    | (lines) "\<not> contains (u ''<br>'') d" "\<not> contains (u ''<p>'') d"
    by blast
  then show ?thesis
  proof cases
    case br
    with ne [OF split_on_nonempty [of "u ''<br>''" d]] show ?thesis
      by (auto simp: paras_cases)
  next
    case p
    have "map (\<lambda>t. replace_all (u ''</p>'') [] t) (split_on (u ''<p>'') d) \<noteq> []"
      using split_on_nonempty by simp
    from ne [OF this] p show ?thesis
      by (auto simp: paras_cases)
  next
    case lines
    from assms have "splitlines d \<noteq> []"
      by (simp add: splitlines_def splitlines_from_nonempty)
    from ne [OF this] lines show ?thesis
      by (auto simp: paras_cases)
  qed
qed

subsection \<open>When add\_formatting returns\<close>

lemma startTags_nonempty: "st \<in> set startTags \<Longrightarrow> st \<noteq> []"
  by (auto simp: catalog_eval u_def)

lemma end_tag_startTags: "st \<in> set startTags \<Longrightarrow> \<exists>et. end_tag st = Inr et"
  by (auto simp: catalog_eval u_def)

lemma finditer_nonempty: "st \<noteq> [] \<Longrightarrow> find_idx st s \<noteq> None \<Longrightarrow> finditer pos st s \<noteq> []"
  by (induction s arbitrary: pos) (auto simp: finditer_Cons)

lemma collect_pos_total:
  "set sts \<subseteq> set startTags \<Longrightarrow>
   \<exists>raw. collect_pos ptext sts = Inr raw \<and> (\<forall>x\<in>set raw. snd (snd x) \<in> set sts)"
proof (induction sts)
  case Nil
  then show ?case by simp
next
  case (Cons st sts)
  then obtain raw where raw: "collect_pos ptext sts = Inr raw"
    and tags: "\<forall>x\<in>set raw. snd (snd x) \<in> set sts"
    by auto
  from Cons.prems obtain et where "end_tag st = Inr et"
    using end_tag_startTags by auto
  with raw tags show ?case
    by auto
qed

lemma collect_pos_nonempty:
  "collect_pos ptext (st # sts) = Inr raw \<Longrightarrow> st \<noteq> [] \<Longrightarrow> contains st ptext \<Longrightarrow> raw \<noteq> []"
  by (auto simp: contains_def finditer_nonempty split: sum.splits)

lemma res_subset: "set (res ptext) \<subseteq> set startTags"
  by (auto simp: res_def)

lemma find_pos_total:
  "\<exists>fp. find_pos ptext = Inr fp \<and> (\<forall>x\<in>set fp. snd (snd x) \<in> set startTags)
        \<and> (res ptext \<noteq> [] \<longrightarrow> fp \<noteq> [])"
proof -
  from collect_pos_total [OF res_subset] obtain raw
    where raw: "collect_pos ptext (res ptext) = Inr raw"
      and tags: "\<forall>x\<in>set raw. snd (snd x) \<in> set (res ptext)"
    by blast
  have "raw \<noteq> []" if "res ptext \<noteq> []"
  proof -
    from that obtain st sts where eq: "res ptext = st # sts"
      by (cases "res ptext") auto
    then have "st \<in> set (res ptext)" by simp
    then have "st \<in> set startTags" and "contains st ptext"
      by (auto simp: res_def)
    with raw eq show ?thesis
      using collect_pos_nonempty startTags_nonempty by metis
  qed
  moreover have "sort raw = [] \<longleftrightarrow> raw = []"
    by (metis length_sort length_0_conv)
  ultimately show ?thesis
    using raw tags res_subset by (auto simp: find_pos_def)
qed

lemma xml_compatible_tab: "xml_compatible 9"
  by (simp add: xml_compatible_def)

lemma add_run_ok: "xml_text t \<Longrightarrow> add_run t s = Inr (new_run t s)"
  by (simp add: add_run_def)

lemma add_run_Inr: "add_run t s = Inr r \<Longrightarrow> r = new_run t s"
  by (simp add: add_run_def split: if_splits)

lemma add_run_error: "add_run t s = Inl e \<Longrightarrow> e = ValueError"
  by (simp add: add_run_def split: if_splits)

lemma add_run_if_ok:
  "xml_text t \<Longrightarrow> add_run_if t = Inr (if t \<noteq> [] then [new_run t None] else [])"
  by (simp add: add_run_if_def add_run_ok)

lemma add_run_if_Inr:
  "add_run_if t = Inr rs \<Longrightarrow> rs = (if t \<noteq> [] then [new_run t None] else [])"
  by (auto simp: add_run_if_def split: if_splits sum.splits dest: add_run_Inr)

lemma add_run_if_error: "add_run_if t = Inl e \<Longrightarrow> e = ValueError"
  by (auto simp: add_run_if_def split: if_splits sum.splits dest: add_run_error)

lemma add_paragraph_None: "add_paragraph None s = Inr \<lparr>pstyle = s, runs = []\<rparr>"
  by (simp add: add_paragraph_def)

lemma add_paragraph_error: "add_paragraph t s = Inl e \<Longrightarrow> e = ValueError"
  by (auto simp: add_paragraph_def split: option.splits sum.splits dest: add_run_if_error)

lemma xml_text_slice: "xml_text s \<Longrightarrow> xml_text (py_slice s i j)"
proof -
  assume "xml_text s"
  then have "\<forall>c\<in>set s. xml_compatible c"
    by (simp add: xml_text_def list_all_iff)
  moreover have "set (py_slice s i j) \<subseteq> set s"
    unfolding py_slice_def Let_def by (meson set_drop_subset set_take_subset subset_trans)
  ultimately show ?thesis
    by (auto simp: xml_text_def list_all_iff)
qed

lemma tagged_run_total: "xml_text t \<Longrightarrow> \<exists>rs. tagged_run st t = Inr rs"
  by (simp add: tagged_run_def add_run_ok)

lemma tagged_run_error: "tagged_run st t = Inl e \<Longrightarrow> e = ValueError"
  by (auto simp: tagged_run_def split: if_splits sum.splits dest: add_run_error)

lemma span_runs_total:
  assumes "\<forall>x\<in>set fp. snd (snd x) \<in> set startTags" and "xml_text ptext"
  shows "\<exists>rs. span_runs ptext fp = Inr rs"
  using assms(1)
proof (induction fp)
  case Nil
  then show ?case by simp
next
  case (Cons item fp)
  obtain b e st where item: "item = (b, e, st)"
    by (cases item) auto
  with Cons.prems obtain et where et: "end_tag st = Inr et"
    using end_tag_startTags by auto
  from Cons obtain rs where rs: "span_runs ptext fp = Inr rs"
    by auto
  obtain tagged where "tagged_run st (py_slice ptext (b + int (length st)) e) = Inr tagged"
    using tagged_run_total [OF xml_text_slice [OF assms(2)]] by blast
  with et rs show ?case
    by (simp add: item Let_def add_run_if_ok [OF xml_text_slice [OF assms(2)]])
qed

lemma span_runs_error:
  assumes "\<forall>x\<in>set fp. snd (snd x) \<in> set startTags" and "span_runs ptext fp = Inl e"
  shows "e = ValueError"
  using assms
proof (induction fp)
  case Nil
  then show ?case by simp
next
  case (Cons item fp)
  obtain b e' st where item: "item = (b, e', st)"
    by (cases item) auto
  with Cons.prems(1) obtain et where et: "end_tag st = Inr et"
    using end_tag_startTags by auto
  from Cons.prems(2) et item
  consider "tagged_run st (py_slice ptext (b + int (length st)) e') = Inl e"
    | "add_run_if (py_slice ptext (e' + int (length et))
          (case fp of [] \<Rightarrow> int (length ptext) | nxt # _ \<Rightarrow> fst nxt)) = Inl e"
    | "span_runs ptext fp = Inl e"
    by (auto simp: Let_def split: sum.splits)
  then show ?case
  proof cases
    case 1
    then show ?thesis by (rule tagged_run_error)
  next
    case 2
    then show ?thesis by (rule add_run_if_error)
  next
    case 3
    with Cons show ?thesis by simp
  qed
qed

lemma formatting_runs_total:
  assumes "xml_text ptext"
  shows "\<exists>rs. formatting_runs (Some ptext) = Inr rs"
proof (cases "res ptext = []")
  case True
  with assms show ?thesis by (simp add: formatting_runs_def add_run_ok)
next
  case False
  from find_pos_total [of ptext] False obtain fp where fp: "find_pos ptext = Inr fp"
    and tags: "\<forall>x\<in>set fp. snd (snd x) \<in> set startTags" and "fp \<noteq> []"
    by auto
  then obtain first others where eq: "fp = first # others"
    by (cases fp) auto
  from span_runs_total [OF tags assms] obtain rs where "span_runs ptext fp = Inr rs"
    by blast
  with fp eq False show ?thesis
    by (simp add: formatting_runs_def Let_def add_run_if_ok [OF xml_text_slice [OF assms]])
qed

lemma formatting_runs_error:
  assumes "formatting_runs (Some ptext) = Inl e"
  shows "e = ValueError"
proof (cases "res ptext = []")
  case True
  with assms show ?thesis
    by (auto simp: formatting_runs_def split: sum.splits dest: add_run_error)
next
  case False
  from find_pos_total [of ptext] False obtain fp where fp: "find_pos ptext = Inr fp"
    and tags: "\<forall>x\<in>set fp. snd (snd x) \<in> set startTags" and "fp \<noteq> []"
    by auto
  then obtain first others where eq: "fp = first # others"
    by (cases fp) auto
  from assms fp eq False
  consider "add_run_if (py_slice ptext 0 (fst first)) = Inl e" | "span_runs ptext fp = Inl e"
    by (auto simp: formatting_runs_def Let_def split: sum.splits)
  then show ?thesis
  proof cases
    case 1
    then show ?thesis by (rule add_run_if_error)
  next
    case 2
    with tags show ?thesis by (rule span_runs_error)
  qed
qed

lemma add_formatting_total: "xml_text ptext \<Longrightarrow> \<exists>pr'. add_formatting pr (Some ptext) = Inr pr'"
  using formatting_runs_total [of ptext] by (auto simp: add_formatting_def)

lemma add_formatting_error: "add_formatting pr p = Inl e \<Longrightarrow> e = TypeError \<or> e = ValueError"
  by (cases p) (auto simp: add_formatting_def formatting_runs_def [of None]
      split: sum.splits dest: formatting_runs_error)

subsection \<open>The runs cover the text between the markers\<close>

lemma map_nth_upt: "j \<le> length s \<Longrightarrow> map ((!) s) [i..<j] = take (j - i) (drop i s)"
proof -
  assume j: "j \<le> length s"
  have "[i..<j] = drop i (take j [0..<length s])"
    using j by (simp add: take_upt)
  then have "map ((!) s) [i..<j] = drop i (take j (map ((!) s) [0..<length s]))"
    by (simp add: drop_map take_map)
  then show ?thesis
    by (simp add: map_nth drop_take)
qed

lemma upt_split: "i \<le> j \<Longrightarrow> j \<le> k \<Longrightarrow> [i..<k] = [i..<j] @ [j..<k]"
  using upt_add_eq_append [of i j "k - j"] by simp

lemma py_slice_upt:
  assumes "a \<le> b" and "b \<le> length s"
  shows "py_slice s (int a) (int b) = map ((!) s) [a..<b]"
  using assms by (simp add: py_slice_def slice_index_def Let_def map_nth_upt min_def)

lemma py_slice_upt_add:
  assumes "a + l \<le> b" and "b \<le> length s"
  shows "py_slice s (int a + int l) (int b) = map ((!) s) [a + l..<b]"
  using py_slice_upt [OF assms] by simp

lemma in_marker_Nil: "\<not> in_marker [] i"
  by (simp add: in_marker_def)

lemma in_marker_Cons:
  "end_tag st = Inr et \<Longrightarrow>
   in_marker ((b, e, st) # rest) i \<longleftrightarrow>
     (0 \<le> e \<and> ((b \<le> int i \<and> int i < b + int (length st))
                \<or> (e \<le> int i \<and> int i < e + int (length et)))) \<or> in_marker rest i"
  by (simp add: in_marker_def)

lemma spans_ok_lower: "spans_ok ptext c fp \<Longrightarrow> in_marker fp i \<Longrightarrow> c \<le> int i"
proof (induction fp arbitrary: c)
  case Nil
  then show ?case by (simp add: in_marker_Nil)
next
  case (Cons item fp)
  obtain b e st where item: "item = (b, e, st)"
    by (cases item) auto
  with Cons.prems obtain et where et: "end_tag st = Inr et"
    and ok: "c \<le> b" "b + int (length st) \<le> e" "spans_ok ptext (e + int (length et)) fp"
    by (auto split: sum.splits)
  from Cons.prems(2) item et
  consider "b \<le> int i" | "e \<le> int i" | "in_marker fp i"
    by (auto simp: in_marker_Cons)
  then show ?case
  proof cases
    case 3
    from Cons.IH [OF ok(3) this] ok show ?thesis by linarith
  qed (use ok in linarith)+
qed

lemma style_tag_run:
  "st \<in> set style_tags \<Longrightarrow> tagged_run st t = Inr rs \<Longrightarrow> map rtext rs = [t]"
  by (auto simp: style_tags_def tagged_run_def add_run_def new_run_def span_start_def u_def
      split: if_splits)

lemma style_tag_start: "st \<in> set style_tags \<Longrightarrow> st \<in> set startTags"
  by (auto simp: style_tags_def catalog_eval u_def)

lemma kept_Nil: "c \<le> length ptext \<Longrightarrow> kept ptext c [] = map ((!) ptext) [c..<length ptext]"
  by (simp add: kept_def in_marker_Nil)

lemma kept_Cons:
  assumes ok: "spans_ok ptext (int c) ((int b, int e, st) # rest)"
    and et: "end_tag st = Inr et"
  shows "kept ptext c ((int b, int e, st) # rest) =
     map ((!) ptext) [c..<b] @ map ((!) ptext) [b + length st..<e]
       @ kept ptext (e + length et) rest"
proof -
  let ?n = "length ptext"
  let ?P = "\<lambda>i. \<not> in_marker ((int b, int e, st) # rest) i"
  from ok et have le: "c \<le> b" "b + length st \<le> e" "e + length et \<le> ?n"
    and rest: "spans_ok ptext (int (e + length et)) rest"
    by simp_all
  have rest_lower: "\<not> in_marker rest i" if "i < e + length et" for i
    using spans_ok_lower [OF rest, of i] that by auto
  have split: "[c..<?n] = [c..<b] @ [b..<b + length st] @ [b + length st..<e]
      @ [e..<e + length et] @ [e + length et..<?n]"
  proof -
    have "[c..<?n] = [c..<b] @ [b..<?n]"
      using le by (intro upt_split) linarith+
    also have "[b..<?n] = [b..<b + length st] @ [b + length st..<?n]"
      using le by (intro upt_split) linarith+
    also have "[b + length st..<?n] = [b + length st..<e] @ [e..<?n]"
      using le by (intro upt_split) linarith+
    also have "[e..<?n] = [e..<e + length et] @ [e + length et..<?n]"
      using le by (intro upt_split) linarith+
    finally show ?thesis .
  qed
  have 1: "filter ?P [c..<b] = [c..<b]"
    using le by (auto simp: in_marker_Cons [OF et] rest_lower intro!: filter_True)
  have 2: "filter ?P [b..<b + length st] = []"
    by (auto simp: in_marker_Cons [OF et] intro!: filter_False)
  have 3: "filter ?P [b + length st..<e] = [b + length st..<e]"
    using le by (auto simp: in_marker_Cons [OF et] rest_lower intro!: filter_True)
  have 4: "filter ?P [e..<e + length et] = []"
    by (auto simp: in_marker_Cons [OF et] intro!: filter_False)
  have 5: "filter ?P [e + length et..<?n] = filter (\<lambda>i. \<not> in_marker rest i) [e + length et..<?n]"
    using le by (auto simp: in_marker_Cons [OF et] intro!: filter_cong)
  show ?thesis
    unfolding kept_def by (subst split) (simp add: 1 2 3 4 5 del: upt_Suc)
qed

lemma span_runs_Cons:
  assumes "end_tag st = Inr et" and "span_runs ptext ((b, e, st) # rest) = Inr rs"
  obtains tagged rs' where "tagged_run st (py_slice ptext (b + int (length st)) e) = Inr tagged"
    and "span_runs ptext rest = Inr rs'"
    and "rs = tagged
      @ (if py_slice ptext (e + int (length et))
              (case rest of [] \<Rightarrow> int (length ptext) | nxt # _ \<Rightarrow> fst nxt) \<noteq> []
         then [new_run (py_slice ptext (e + int (length et))
              (case rest of [] \<Rightarrow> int (length ptext) | nxt # _ \<Rightarrow> fst nxt)) None]
         else [])
      @ rs'"
proof -
  let ?U = "py_slice ptext (e + int (length et))
      (case rest of [] \<Rightarrow> int (length ptext) | nxt # _ \<Rightarrow> fst nxt)"
  from assms obtain tagged untagged rs'
    where t: "tagged_run st (py_slice ptext (b + int (length st)) e) = Inr tagged"
      and v: "add_run_if ?U = Inr untagged"
      and r: "span_runs ptext rest = Inr rs'"
      and rs: "rs = tagged @ untagged @ rs'"
    by (auto simp: Let_def split: sum.splits)
  from add_run_if_Inr [OF v] rs have "rs = tagged @ (if ?U \<noteq> [] then [new_run ?U None] else []) @ rs'"
    by simp
  with t r show ?thesis
    by (rule that)
qed

lemma span_runs_text:
  assumes "spans_ok ptext (int c) ((int b, int e, st) # rest)"
    and "end_tag st = Inr et"
    and "span_runs ptext ((int b, int e, st) # rest) = Inr rs"
  shows "concat (map rtext rs) =
     map ((!) ptext) [b + length st..<e] @ kept ptext (e + length et) rest"
  using assms
proof (induction rest arbitrary: c b e st et rs)
  case Nil
  then have le: "b + length st \<le> e" "e + length et \<le> length ptext" and st: "st \<in> set style_tags"
    by simp_all
  have nxt: "(case [] :: (int \<times> int \<times> pystr) list of [] \<Rightarrow> int (length ptext)
      | nxt # _ \<Rightarrow> fst nxt) = int (length ptext)"
    by simp
  from span_runs_Cons [OF Nil.prems(2,3)] obtain tagged rs'
    where tagged: "tagged_run st (py_slice ptext (int b + int (length st)) (int e)) = Inr tagged"
      and rs': "span_runs ptext [] = Inr rs'"
      and rs0: "rs = tagged
        @ (if py_slice ptext (int e + int (length et)) (int (length ptext)) \<noteq> []
           then [new_run (py_slice ptext (int e + int (length et)) (int (length ptext))) None]
           else [])
        @ rs'"
    unfolding nxt by blast
  from rs' have "rs' = []" by simp
  with rs0 have rs: "rs = tagged
        @ (if py_slice ptext (int e + int (length et)) (int (length ptext)) \<noteq> []
           then [new_run (py_slice ptext (int e + int (length et)) (int (length ptext))) None]
           else [])
        @ []"
    by simp
  have "concat (map rtext rs) = py_slice ptext (int b + int (length st)) (int e)
      @ py_slice ptext (int e + int (length et)) (int (length ptext)) @ concat (map rtext [])"
    using style_tag_run [OF st tagged] by (simp add: rs new_run_def)
  with le show ?case
    by (simp add: py_slice_upt py_slice_upt_add kept_Nil)
next
  case (Cons item rest)
  from Cons.prems(1,2) have le: "b + length st \<le> e" "e + length et \<le> length ptext"
    and st: "st \<in> set style_tags"
    and ok: "spans_ok ptext (int (e + length et)) (item # rest)"
    by simp_all
  obtain b1 e1 st1 where item1: "item = (b1, e1, st1)"
    by (cases item) auto
  with ok have "0 \<le> b1" and "0 \<le> e1"
    by (auto split: sum.splits)
  then obtain b' e' where "b1 = int b'" and "e1 = int e'"
    by (metis nonneg_int_cases)
  with item1 have item: "item = (int b', int e', st1)"
    by simp
  from ok item obtain et1 where et1: "end_tag st1 = Inr et1"
    and le1: "e + length et \<le> b'" "b' + length st1 \<le> e'" "e' + length et1 \<le> length ptext"
    by (auto split: sum.splits)
  have nxt: "(case item # rest of [] \<Rightarrow> int (length ptext) | nxt # _ \<Rightarrow> fst nxt) = int b'"
    by (simp add: item)
  from span_runs_Cons [OF Cons.prems(2,3)] obtain tagged rs'
    where tagged: "tagged_run st (py_slice ptext (int b + int (length st)) (int e)) = Inr tagged"
      and rs': "span_runs ptext (item # rest) = Inr rs'"
      and rs: "rs = tagged
        @ (if py_slice ptext (int e + int (length et)) (int b') \<noteq> []
           then [new_run (py_slice ptext (int e + int (length et)) (int b')) None] else [])
        @ rs'"
    unfolding nxt by blast
  have "concat (map rtext rs) = py_slice ptext (int b + int (length st)) (int e)
      @ py_slice ptext (int e + int (length et)) (int b') @ concat (map rtext rs')"
    using style_tag_run [OF st tagged] by (simp add: rs new_run_def)
  moreover from Cons.IH [OF ok [unfolded item] et1 rs' [unfolded item]]
  have "concat (map rtext rs') =
      map ((!) ptext) [b' + length st1..<e'] @ kept ptext (e' + length et1) rest" .
  moreover from kept_Cons [OF ok [unfolded item] et1]
  have "kept ptext (e + length et) (item # rest) =
      map ((!) ptext) [e + length et..<b'] @ map ((!) ptext) [b' + length st1..<e']
        @ kept ptext (e' + length et1) rest"
    by (simp add: item)
  ultimately show ?case
    using le le1 by (simp add: py_slice_upt py_slice_upt_add)
qed

subsection \<open>No opening marker is left in a run\<close>

lemma finditer_complete:
  assumes "st = c # cs" and "c \<notin> set cs" and "startswith (drop j s) st"
  shows "pos + j \<in> set (finditer pos st s)"
  using assms
proof (induction pos st s arbitrary: j rule: finditer.induct)
  case (1 pos st s)
  from "1.prems"(1) have ne: "st \<noteq> []" by simp
  show ?case
  proof (cases "startswith s st")
    case True
    show ?thesis
    proof (cases "j < length st")
      case short: True
      have "j = 0"
      proof (rule ccontr)
        assume "j \<noteq> 0"
        from "1.prems"(1,3) have "take (Suc (length cs)) (drop j s) = c # cs"
          by (simp add: startswith_def)
        then obtain rest where "drop j s = c # rest"
          by (cases "drop j s") auto
        then have "s ! j = c"
          by (rule nth_via_drop)
        moreover from True short have "s ! j = st ! j"
          by (metis nth_take startswith_def)
        moreover from \<open>j \<noteq> 0\<close> short "1.prems"(1) have "st ! j \<in> set cs"
          by (cases j) auto
        ultimately show False
          using "1.prems"(2) by simp
      qed
      with True ne show ?thesis
        by (simp add: finditer.simps [of pos st s])
    next
      case False
      then have "drop j s = drop (j - length st) (drop (length st) s)"
        by simp
      with "1.prems"(3) have "startswith (drop (j - length st) (drop (length st) s)) st"
        by simp
      from "1.IH"(1) [OF ne True "1.prems"(1,2) this] False True ne show ?thesis
        by (simp add: finditer.simps [of pos st s])
    qed
  next
    case False
    show ?thesis
    proof (cases s)
      case Nil
      with "1.prems"(3) ne show ?thesis
        by (simp add: startswith_def)
    next
      case (Cons x s')
      with False "1.prems"(3) obtain j' where j: "j = Suc j'"
        by (cases j) auto
      with Cons "1.prems"(3) have "startswith (drop j' s') st"
        by simp
      from "1.IH"(2) [OF ne False Cons "1.prems"(1,2) this] j Cons False ne show ?thesis
        by (simp add: finditer_Cons)
    qed
  qed
qed

lemma startTags_shape: "st \<in> set startTags \<Longrightarrow> \<exists>c cs. st = c # cs \<and> c \<notin> set cs"
  by (auto simp: catalog_eval u_def)

lemma collect_pos_member:
  "collect_pos ptext sts = Inr raw \<Longrightarrow> st \<in> set sts \<Longrightarrow> j \<in> set (finditer 0 st ptext) \<Longrightarrow>
   \<exists>e. (int j, e, st) \<in> set raw"
proof (induction sts arbitrary: raw)
  case Nil
  then show ?case by simp
next
  case (Cons a sts)
  from Cons.prems(1) obtain et later where et: "end_tag a = Inr et"
    and later: "collect_pos ptext sts = Inr later"
    and raw: "raw = map (\<lambda>begin. (int begin, py_find_from ptext et begin, a))
        (finditer 0 a ptext) @ later"
    by (auto split: sum.splits)
  show ?case
  proof (cases "st = a")
    case True
    with Cons.prems(3) raw show ?thesis by force
  next
    case False
    with Cons.prems(2) have "st \<in> set sts" by simp
    from Cons.IH [OF later this Cons.prems(3)] raw show ?thesis by auto
  qed
qed

lemma occurrence_is_span:
  assumes "find_pos ptext = Inr fp" and "st \<in> set startTags" and "startswith (drop j ptext) st"
  shows "\<exists>e. (int j, e, st) \<in> set fp"
proof -
  from assms(1) obtain raw where raw: "collect_pos ptext (res ptext) = Inr raw"
    and fp: "fp = sort raw"
    by (auto simp: find_pos_def split: sum.splits)
  from assms(3) have "find_idx st ptext \<noteq> None"
    using find_idx_None by blast
  with assms(2) have "st \<in> set (res ptext)"
    by (simp add: res_def contains_def)
  moreover from startTags_shape [OF assms(2)] assms(3) have "j \<in> set (finditer 0 st ptext)"
    using finditer_complete [of st _ _ j ptext 0] by auto
  ultimately obtain e where "(int j, e, st) \<in> set raw"
    using collect_pos_member [OF raw] by blast
  with fp show ?thesis by auto
qed

lemma span_begin_in_marker:
  "spans_ok ptext c fp \<Longrightarrow> 0 \<le> c \<Longrightarrow> (b, e, st) \<in> set fp \<Longrightarrow> in_marker fp (nat b)"
proof (induction fp arbitrary: c)
  case Nil
  then show ?case by simp
next
  case (Cons item fp)
  obtain b1 e1 st1 where item: "item = (b1, e1, st1)"
    by (cases item) auto
  with Cons.prems(1) obtain et where et: "end_tag st1 = Inr et"
    and ok: "st1 \<in> set style_tags" "c \<le> b1" "b1 + int (length st1) \<le> e1"
      "spans_ok ptext (e1 + int (length et)) fp"
    by (auto split: sum.splits)
  from ok(1) have ne: "st1 \<noteq> []"
    using style_tag_start startTags_nonempty by blast
  show ?case
  proof (cases "(b, e, st) = item")
    case True
    with item ok Cons.prems(2) ne show ?thesis
      by (simp add: in_marker_Cons [OF et])
  next
    case False
    with Cons.prems(3) have "(b, e, st) \<in> set fp" by simp
    moreover from ok Cons.prems(2) have "0 \<le> e1 + int (length et)" by linarith
    ultimately have "in_marker fp (nat b)"
      using Cons.IH [OF ok(4)] by blast
    then show ?thesis
      by (simp add: item in_marker_Cons [OF et])
  qed
qed

lemma clear_pieceI:
  "lo \<le> x \<Longrightarrow> y \<le> length ptext \<Longrightarrow> (\<And>i. x \<le> i \<Longrightarrow> i < y \<Longrightarrow> \<not> in_marker fp i) \<Longrightarrow>
   clear_piece ptext fp lo (map ((!) ptext) [x..<y])"
  unfolding clear_piece_def by blast

lemma clear_piece_no_marker:
  assumes piece: "clear_piece ptext fp lo t"
    and fp: "find_pos ptext = Inr fp" and ok: "spans_ok ptext 0 fp"
    and st: "st \<in> set startTags"
  shows "\<not> contains st t"
proof
  assume "contains st t"
  from piece obtain x y where y: "y \<le> length ptext" and t: "t = map ((!) ptext) [x..<y]"
    and clear: "\<And>i. x \<le> i \<Longrightarrow> i < y \<Longrightarrow> \<not> in_marker fp i"
    unfolding clear_piece_def by blast
  from t y have t': "t = take (y - x) (drop x ptext)"
    by (simp add: map_nth_upt)
  from \<open>contains st t\<close> obtain k where "find_idx st t = Some k"
    by (auto simp: contains_def)
  then have "startswith (drop k (take (y - x) (drop x ptext))) st"
    unfolding t' by (rule find_idx_match)
  from startswith_take [OF this startTags_nonempty [OF st]]
  have occ: "startswith (drop (x + k) ptext) st" and k: "k < y - x"
    by (simp_all add: add.commute)
  from occurrence_is_span [OF fp st occ] obtain e where "(int (x + k), e, st) \<in> set fp"
    by blast
  from span_begin_in_marker [OF ok _ this] have "in_marker fp (nat (int (x + k)))"
    by blast
  then have "in_marker fp (x + k)"
    by (simp only: nat_int)
  moreover from k have "\<not> in_marker fp (x + k)"
    by (intro clear) simp_all
  ultimately show False by simp
qed

lemma clear_piece_lower:
  assumes "clear_piece ptext fp lo t" and "lo' \<le> lo"
  shows "clear_piece ptext fp lo' t"
proof -
  from assms(1) obtain x y where "lo \<le> x" and y: "y \<le> length ptext"
    and t: "t = map ((!) ptext) [x..<y]"
    and clear: "\<And>i. x \<le> i \<Longrightarrow> i < y \<Longrightarrow> \<not> in_marker fp i"
    unfolding clear_piece_def by blast
  with assms(2) have "lo' \<le> x" by simp
  from this y clear show ?thesis
    unfolding t by (rule clear_pieceI)
qed

lemma clear_piece_Cons:
  assumes "clear_piece ptext rest lo t" and "end_tag st = Inr et" and "e + length et \<le> lo"
    and "b + length st \<le> e"
  shows "clear_piece ptext ((int b, int e, st) # rest) lo t"
proof -
  from assms(1) obtain x y where x: "lo \<le> x" and y: "y \<le> length ptext"
    and t: "t = map ((!) ptext) [x..<y]"
    and clear: "\<And>i. x \<le> i \<Longrightarrow> i < y \<Longrightarrow> \<not> in_marker rest i"
    unfolding clear_piece_def by blast
  have "\<not> in_marker ((int b, int e, st) # rest) i" if "x \<le> i" "i < y" for i
    using that clear [OF that] x assms(3,4) by (simp add: in_marker_Cons [OF assms(2)])
  with x y show ?thesis
    unfolding t by (intro clear_pieceI)
qed

lemma spans_ok_head: "spans_ok ptext c ((b, e, st) # rest) \<Longrightarrow> spans_ok ptext b ((b, e, st) # rest)"
  by simp

lemma tagged_run_text:
  assumes "st \<in> set style_tags" and "tagged_run st t = Inr rs" and "r \<in> set rs"
  shows "rtext r = t"
proof -
  from assms(3) have "rtext r \<in> set (map rtext rs)"
    by simp
  with style_tag_run [OF assms(1,2)] show ?thesis
    by simp
qed

lemma untagged_member:
  "r \<in> set (if t \<noteq> [] then [new_run t None] else []) \<Longrightarrow> rtext r = t"
  by (simp add: new_run_def split: if_splits)

lemma span_runs_member:
  assumes et: "end_tag st = Inr et"
    and rs: "span_runs ptext ((int b, int e, st) # rest) = Inr rs"
    and r: "r \<in> set rs"
    and st: "st \<in> set style_tags"
    and le: "b + length st \<le> e" "e \<le> length ptext"
    and nxt: "(case rest of [] \<Rightarrow> int (length ptext) | nxt # _ \<Rightarrow> fst nxt) = int b'"
    and le': "e + length et \<le> b'" "b' \<le> length ptext"
  obtains (tagged) "rtext r = map ((!) ptext) [b + length st..<e]"
    | (untagged) "rtext r = map ((!) ptext) [e + length et..<b']"
    | (later) rs' where "span_runs ptext rest = Inr rs'" and "r \<in> set rs'"
proof -
  from span_runs_Cons [OF et rs] obtain tagged_runs rs'
    where tr: "tagged_run st (py_slice ptext (int b + int (length st)) (int e)) = Inr tagged_runs"
      and rs': "span_runs ptext rest = Inr rs'"
      and eq: "rs = tagged_runs
        @ (if py_slice ptext (int e + int (length et)) (int b') \<noteq> []
           then [new_run (py_slice ptext (int e + int (length et)) (int b')) None] else [])
        @ rs'"
    unfolding nxt by blast
  have T: "py_slice ptext (int b + int (length st)) (int e) = map ((!) ptext) [b + length st..<e]"
    using le by (rule py_slice_upt_add)
  have U: "py_slice ptext (int e + int (length et)) (int b') = map ((!) ptext) [e + length et..<b']"
    using le' by (rule py_slice_upt_add)
  from r eq consider "r \<in> set tagged_runs"
    | "r \<in> set (if py_slice ptext (int e + int (length et)) (int b') \<noteq> []
         then [new_run (py_slice ptext (int e + int (length et)) (int b')) None] else [])"
    | "r \<in> set rs'"
    by (metis Un_iff set_append)
  then show ?thesis
  proof cases
    case 1
    from tagged_run_text [OF st tr 1] show ?thesis using tagged T by simp
  next
    case 2
    from untagged_member [OF this] show ?thesis using untagged U by simp
  next
    case 3
    with rs' show ?thesis by (rule later)
  qed
qed

lemma span_runs_clear:
  assumes "spans_ok ptext (int c) ((int b, int e, st) # rest)"
    and "end_tag st = Inr et"
    and "span_runs ptext ((int b, int e, st) # rest) = Inr rs"
    and "r \<in> set rs"
  shows "clear_piece ptext ((int b, int e, st) # rest) b (rtext r)"
  using assms
proof (induction rest arbitrary: c b e st et rs)
  case Nil
  then have le: "b + length st \<le> e" "e + length et \<le> length ptext" and st: "st \<in> set style_tags"
    by simp_all
  let ?fp = "[(int b, int e, st)]"
  have tagged: "clear_piece ptext ?fp b (map ((!) ptext) [b + length st..<e])"
    using le by (intro clear_pieceI) (simp_all add: in_marker_Cons [OF Nil.prems(2)] in_marker_Nil)
  have untagged: "clear_piece ptext ?fp b (map ((!) ptext) [e + length et..<length ptext])"
    using le by (intro clear_pieceI) (simp_all add: in_marker_Cons [OF Nil.prems(2)] in_marker_Nil)
  from le have le2: "e \<le> length ptext" by simp
  have nxt: "(case [] :: (int \<times> int \<times> pystr) list of [] \<Rightarrow> int (length ptext)
      | nxt # _ \<Rightarrow> fst nxt) = int (length ptext)"
    by simp
  from Nil.prems(2,3,4) st le(1) le2 nxt le(2) order_refl show ?case
  proof (cases rule: span_runs_member)
    case tagged': tagged
    from tagged' tagged show ?thesis by simp
  next
    case untagged': untagged
    from untagged' untagged show ?thesis by simp
  next
    case (later rs')
    then show ?thesis by simp
  qed
next
  case (Cons item rest)
  from Cons.prems(1,2) have le: "b + length st \<le> e" "e + length et \<le> length ptext"
    and st: "st \<in> set style_tags"
    and ok: "spans_ok ptext (int (e + length et)) (item # rest)"
    by simp_all
  obtain b1 e1 st1 where item1: "item = (b1, e1, st1)"
    by (cases item) auto
  with ok have "0 \<le> b1" and "0 \<le> e1"
    by (auto split: sum.splits)
  then obtain b' e' where "b1 = int b'" and "e1 = int e'"
    by (metis nonneg_int_cases)
  with item1 have item: "item = (int b', int e', st1)"
    by simp
  from ok item obtain et1 where et1: "end_tag st1 = Inr et1"
    and le1: "e + length et \<le> b'" "b' + length st1 \<le> e'" "e' + length et1 \<le> length ptext"
    by (auto split: sum.splits)
  let ?fp = "(int b, int e, st) # item # rest"
  have later: "\<not> in_marker (item # rest) i" if "i < b'" for i
    using spans_ok_lower [OF spans_ok_head [OF ok [unfolded item]], of i] that item by auto
  have tagged: "clear_piece ptext ?fp b (map ((!) ptext) [b + length st..<e])"
    using le le1 by (intro clear_pieceI) (simp_all add: in_marker_Cons [OF Cons.prems(2)] later)
  have untagged: "clear_piece ptext ?fp b (map ((!) ptext) [e + length et..<b'])"
    using le le1 by (intro clear_pieceI) (simp_all add: in_marker_Cons [OF Cons.prems(2)] later)
  from le have le2: "e \<le> length ptext" by simp
  from le1 have le3: "b' \<le> length ptext" by simp
  have nxt: "(case item # rest of [] \<Rightarrow> int (length ptext) | nxt # _ \<Rightarrow> fst nxt) = int b'"
    by (simp add: item)
  from Cons.prems(2,3,4) st le(1) le2 nxt le1(1) le3 show ?case
  proof (cases rule: span_runs_member)
    case tagged': tagged
    from tagged' tagged show ?thesis by simp
  next
    case untagged': untagged
    from untagged' untagged show ?thesis by simp
  next
    case (later rs')
    from Cons.IH [OF ok [unfolded item] et1 later(1) [unfolded item] later(2)]
    have "clear_piece ptext (item # rest) b' (rtext r)"
      by (simp add: item)
    from clear_piece_Cons [OF this Cons.prems(2) le1(1) le(1)]
    have "clear_piece ptext ?fp b' (rtext r)" .
    moreover from le le1 have "b \<le> b'" by simp
    ultimately show ?thesis
      by (rule clear_piece_lower)
  qed
qed

subsection \<open>Coverage\<close>

lemma find_pos_no_tags: "res ptext = [] \<Longrightarrow> find_pos ptext = Inr []"
  by (simp add: find_pos_def)

lemma res_empty_no_marker: "res ptext = [] \<Longrightarrow> st \<in> set startTags \<Longrightarrow> \<not> contains st ptext"
  by (auto simp: res_def filter_empty_conv)

text \<open>
  Claim C1, as amended: let a text hold only characters that \<^verbatim>\<open>add_run\<close> accepts,
  and let every span that the scan of the text finds be well formed, that is, be a span
  of one of the style tags \<^verbatim>\<open><b>\<close>, \<^verbatim>\<open><i>\<close>, \<^verbatim>\<open><sup>\<close>, \<^verbatim>\<open><sub>\<close> and
  the FGDCGeoAge \<^verbatim>\<open><span>\<close>, have its closing marker after its opening marker, and
  begin no earlier than the end of the closing marker of the span before it.  Then
  \<^verbatim>\<open>add_formatting\<close> returns, the texts of its runs, joined in order, are the input
  without the opening and the closing marker of each span, and no opening marker of the
  catalog occurs in the text of a run.
\<close>

theorem runs_cover_text:
  assumes "well_formed ptext" and "xml_text ptext"
  shows "\<exists>rs. formatting_runs (Some ptext) = Inr rs \<and>
           concat (map rtext rs) = strip_markers ptext \<and>
           (\<forall>r\<in>set rs. \<forall>st\<in>set startTags. \<not> contains st (rtext r))"
proof (cases "res ptext = []")
  case True
  then have "strip_markers ptext = ptext"
    by (simp add: strip_markers_def find_pos_no_tags remove_markers_def kept_Nil map_nth)
  with True res_empty_no_marker [OF True] assms(2) show ?thesis
    by (simp add: formatting_runs_def add_run_ok new_run_def)
next
  case False
  from find_pos_total [of ptext] False obtain fp where fp: "find_pos ptext = Inr fp"
    and "fp \<noteq> []"
    by auto
  with assms(1) have ok: "spans_ok ptext 0 fp"
    by (simp add: well_formed_def)
  from \<open>fp \<noteq> []\<close> obtain b0 e0 st rest where "fp = (b0, e0, st) # rest"
    by (cases fp) auto
  moreover from this ok have "0 \<le> b0" and "0 \<le> e0"
    by (auto split: sum.splits)
  then obtain b e where "b0 = int b" and "e0 = int e"
    by (metis nonneg_int_cases)
  ultimately have fp_eq: "fp = (int b, int e, st) # rest"
    by simp
  from ok fp_eq obtain et where et: "end_tag st = Inr et"
    and le: "b + length st \<le> e" "e + length et \<le> length ptext"
    by (auto split: sum.splits)
  from ok have ok': "spans_ok ptext (int 0) ((int b, int e, st) # rest)"
    by (simp add: fp_eq)
  from fp have tags: "\<forall>x\<in>set fp. snd (snd x) \<in> set startTags"
    using find_pos_total [of ptext] by auto
  from span_runs_total [OF tags assms(2)] obtain rs where rs: "span_runs ptext fp = Inr rs"
    by blast
  let ?before = "map ((!) ptext) [0..<b]"
  let ?out = "(if ?before \<noteq> [] then [new_run ?before None] else []) @ rs"
  from le have before: "py_slice ptext 0 (int b) = ?before"
    using py_slice_upt [of 0 b ptext] by simp
  from add_run_if_ok [OF xml_text_slice [OF assms(2)], of 0 "int b"]
  have "add_run_if ?before = Inr (if ?before \<noteq> [] then [new_run ?before None] else [])"
    by (simp only: before)
  with False fp rs before have out: "formatting_runs (Some ptext) = Inr ?out"
    by (simp add: formatting_runs_def fp_eq Let_def)
  have "concat (map rtext ?out) = ?before @ concat (map rtext rs)"
    by (simp add: new_run_def)
  also from span_runs_text [OF ok' et rs [unfolded fp_eq]]
  have "concat (map rtext rs) = map ((!) ptext) [b + length st..<e] @ kept ptext (e + length et) rest" .
  also from kept_Cons [OF ok' et]
  have "?before @ map ((!) ptext) [b + length st..<e] @ kept ptext (e + length et) rest
      = kept ptext 0 fp"
    by (simp add: fp_eq)
  finally have cover: "concat (map rtext ?out) = strip_markers ptext"
    by (simp add: strip_markers_def fp remove_markers_def)
  have "clear_piece ptext fp 0 (rtext r)" if "r \<in> set ?out" for r
  proof -
    have first: "\<not> in_marker fp i" if "i < b" for i
      using spans_ok_lower [OF spans_ok_head [OF ok'], of i] that fp_eq by auto
    from that consider "rtext r = ?before" | "r \<in> set rs"
      by (auto simp: new_run_def split: if_splits)
    then show ?thesis
    proof cases
      case 1
      from le first show ?thesis
        unfolding 1 by (intro clear_pieceI) simp_all
    next
      case 2
      from span_runs_clear [OF ok' et rs [unfolded fp_eq] 2]
      show ?thesis
        unfolding fp_eq by (rule clear_piece_lower) simp
    qed
  qed
  then have "\<forall>r\<in>set ?out. \<forall>st\<in>set startTags. \<not> contains st (rtext r)"
    using clear_piece_no_marker [OF _ fp ok] by blast
  with out cover show ?thesis
    by blast
qed

theorem runs_cover_text_witness:
  "well_formed (u ''<b>Basalt</b> flows, <i>locally</i> vesicular'') \<and>
   xml_text (u ''<b>Basalt</b> flows, <i>locally</i> vesicular'') \<and>
   formatting_runs (Some (u ''<b>Basalt</b> flows, <i>locally</i> vesicular'')) =
     Inr [(new_run (u ''Basalt'') None)\<lparr>bold := True\<rparr>, new_run (u '' flows, '') None,
          (new_run (u ''locally'') None)\<lparr>italic := True\<rparr>, new_run (u '' vesicular'') None] \<and>
   strip_markers (u ''<b>Basalt</b> flows, <i>locally</i> vesicular'')
     = u ''Basalt flows, locally vesicular''"
  using runs_cover_text [of "u ''<b>Basalt</b> flows, <i>locally</i> vesicular''"]
  by (simp add: well_formed_def style_tags_def strip_markers_def remove_markers_def kept_def
      in_marker_def string_eval catalog_eval formatting_eval upt_conv_Cons)

text \<open>
  Claim C1 as it was stated, for every text, fails on nested tags: the closing marker of
  the outer span lies behind the inner span, so the bold run of
  \<^verbatim>\<open><b>a<i>b</i>c</b>\<close> holds the inner markers, the inner content is written a
  second time, and the last run holds the outer closing marker.
\<close>

theorem nested_tags_runs:
  "formatting_runs (Some (u ''<b>a<i>b</i>c</b>'')) =
     Inr [(new_run (u ''a<i>b</i>c'') None)\<lparr>bold := True\<rparr>,
          (new_run (u ''b'') None)\<lparr>italic := True\<rparr>,
          new_run (u ''c</b>'') None] \<and>
   concat (map rtext [(new_run (u ''a<i>b</i>c'') None)\<lparr>bold := True\<rparr>,
          (new_run (u ''b'') None)\<lparr>italic := True\<rparr>,
          new_run (u ''c</b>'') None]) = u ''a<i>b</i>cbc</b>'' \<and>
   strip_markers (u ''<b>a<i>b</i>c</b>'') = u ''abc'' \<and>
   contains (u ''<i>'') (rtext ((new_run (u ''a<i>b</i>c'') None)\<lparr>bold := True\<rparr>))"
  by (simp add: strip_markers_def remove_markers_def kept_def
      in_marker_def string_eval catalog_eval formatting_eval upt_conv_Cons)

subsection \<open>Which errors a row can raise\<close>

lemma add_formatting_error_text: "add_formatting pr (Some t) = Inl e \<Longrightarrow> e = ValueError"
  by (auto simp: add_formatting_def split: sum.splits dest: formatting_runs_error)

lemma continuation_error: "continuation ts = Inl e \<Longrightarrow> e = ValueError"
proof (induction ts)
  case Nil
  then show ?case by simp
next
  case (Cons t ts)
  from Cons.prems
  consider pr where "add_formatting pr (Some t) = Inl e" | "continuation ts = Inl e"
    by (auto simp: add_paragraph_None split: sum.splits)
  then show ?case
  proof cases
    case 1
    then show ?thesis by (rule add_formatting_error_text)
  next
    case 2
    then show ?thesis by (rule Cons.IH)
  qed
qed

lemma emDash_ok: "add_run emDash None = Inr (new_run emDash None)"
  by (simp add: add_run_def emDash_def xml_text_def xml_compatible_def)

lemma describe_error:
  assumes "d \<noteq> []" and "describe unit d = Inl e"
  shows "e = ValueError"
proof -
  from assms(1) obtain first others where ps: "paras d = Inr (first # others)"
    using paras_has_first by blast
  with assms(2)
  consider pr where "add_formatting pr (Some first) = Inl e" | "continuation others = Inl e"
    by (auto simp: describe_def emDash_ok Let_def split: sum.splits)
  then show ?thesis
  proof cases
    case 1
    then show ?thesis by (rule add_formatting_error_text)
  next
    case 2
    then show ?thesis by (rule continuation_error)
  qed
qed

lemma leading_runs_error: "leading_runs a r = Inl e \<Longrightarrow> e = ValueError"
  by (auto simp: leading_runs_def split: sum.splits if_splits option.splits
      dest: add_run_error)

lemma unit_row_error:
  assumes "unit_row cfg s r p5 = Inl e"
  shows "e = NameError (u ''abbrv'') \<or> e = ValueError"
proof (cases "choose_abbrv cfg s r")
  case None
  with assms show ?thesis by (simp add: unit_row_def Let_def)
next
  case (Some a)
  show ?thesis
  proof (cases "leading_runs (tabbed a p5) r")
    case (Inl e')
    with assms Some have "e' = e"
      by (simp add: unit_row_def Let_def)
    with Inl leading_runs_error show ?thesis by blast
  next
    case (Inr leading)
    show ?thesis
    proof (cases "isNotBlank (description r) \<and> \<not> isLMU cfg")
      case False
      with assms Some Inr show ?thesis
        by (simp add: unit_row_def Let_def)
    next
      case True
      then obtain d where d: "description r = Some d" "d \<noteq> []"
        by (cases "description r") (auto simp: isNotBlank_iff)
      from assms Some Inr True d obtain unit where "describe unit d = Inl e"
        by (auto simp: unit_row_def Let_def split: sum.splits)
      from describe_error [OF d(2) this] show ?thesis by simp
    qed
  qed
qed

lemma heading_row_error:
  assumes "heading_row s r = Inl e"
  shows "e = TypeError \<or> e = ValueError"
proof -
  from assms obtain pr p where "add_formatting pr p = Inl e"
    by (auto simp: heading_row_def add_paragraph_None split: sum.splits if_splits)
  then show ?thesis by (rule add_formatting_error)
qed

lemma process_row_error:
  assumes "process_row cfg s r = Inl e"
  shows "e \<in> {AttributeError, TypeError, NameError (u ''abbrv''), ValueError}"
proof (cases "paragraphstyle r")
  case None
  with assms show ?thesis by (simp add: process_row_def)
next
  case (Some p5)
  with assms have "heading_row s r = Inl e \<or> unit_row cfg s r p5 = Inl e"
    by (simp add: process_row_def split: if_splits)
  then show ?thesis
    using heading_row_error unit_row_error by blast
qed

lemma process_rows_error:
  "process_rows cfg s rs = Inl e \<Longrightarrow>
   e \<in> {AttributeError, TypeError, NameError (u ''abbrv''), ValueError}"
proof (induction rs arbitrary: s)
  case Nil
  then show ?case by simp
next
  case (Cons r rs)
  show ?case
  proof (cases "process_row cfg s r")
    case (Inl e')
    with Cons.prems have "e' = e" by simp
    with Inl show ?thesis using process_row_error by blast
  next
    case (Inr s')
    with Cons.prems have "process_rows cfg s' rs = Inl e" by simp
    then show ?thesis by (rule Cons.IH)
  qed
qed

lemma main_error:
  assumes "main argv dmuRows = Inl e"
  shows "e \<in> {IndexError, StopIteration, AttributeError, TypeError, NameError (u ''abbrv''),
    ValueError}"
proof -
  have nb: "\<not> null_branch a" for a
    by (simp add: null_branch_def)
  have tp: "\<not> title_placeholder nm" for nm
    by (simp add: title_placeholder_def)
  from assms show ?thesis
    by (auto simp: main_def Let_def nb tp simp del: process_rows.simps
        split: if_splits list.splits option.splits sum.splits
        dest: process_rows_error add_paragraph_error)
qed

subsection \<open>The branch that prints Null\<close>

text \<open>
  Claim C10: the branch guarded by \<^verbatim>\<open>sys.argv[4] == 3\<close> is never taken, for the
  entries of \<^verbatim>\<open>sys.argv\<close> are texts and a text never equals the integer 3; so the
  undefined name \<^verbatim>\<open>Null\<close> is never evaluated, and no run of the script ends with
  the NameError for it.
\<close>

theorem null_branch_unreachable:
  "\<not> null_branch a4 \<and> main argv dmuRows \<noteq> Inl (NameError (u ''Null''))"
proof
  show "\<not> null_branch a4"
    by (simp add: null_branch_def)
  have ne: "u ''Null'' \<noteq> u ''abbrv''"
    by (simp add: u_def)
  show "main argv dmuRows \<noteq> Inl (NameError (u ''Null''))"
  proof
    assume "main argv dmuRows = Inl (NameError (u ''Null''))"
    from main_error [OF this] ne show False
      by simp
  qed
qed

subsection \<open>Splitting a description into paragraphs\<close>

text \<open>
  Claim C7, as amended: the script splits a description only under the guard
  \<^verbatim>\<open>isNotBlank(row[4])\<close>.  For every text that passes the guard the list of
  paragraphs has a first piece; such a text without \<^verbatim>\<open><br>\<close>, \<^verbatim>\<open><p>\<close> and
  line-break characters gives the one-element list of itself; and the unit branch never
  ends with an IndexError, whatever the row, so \<^verbatim>\<open>paras[0]\<close> is in bounds.
\<close>

theorem paras_nonempty:
  "(isNotBlank (Some d) \<longrightarrow> (\<exists>first others. paras d = Inr (first # others))) \<and>
   (isNotBlank (Some d) \<and> \<not> contains (u ''<br>'') d \<and> \<not> contains (u ''<p>'') d
      \<and> (\<forall>c\<in>set d. \<not> is_linebreak c) \<longrightarrow> paras d = Inr [d]) \<and>
   unit_row cfg s r p5 \<noteq> Inl IndexError"
proof (intro conjI impI)
  assume "isNotBlank (Some d)"
  then have "d \<noteq> []" by (simp add: isNotBlank_iff)
  then show "\<exists>first others. paras d = Inr (first # others)"
    by (rule paras_has_first)
next
  assume a: "isNotBlank (Some d) \<and> \<not> contains (u ''<br>'') d \<and> \<not> contains (u ''<p>'') d
      \<and> (\<forall>c\<in>set d. \<not> is_linebreak c)"
  then have "d \<noteq> []" by (simp add: isNotBlank_iff)
  with a show "paras d = Inr [d]"
    by (simp add: paras_cases splitlines_def splitlines_from_no_break)
next
  show "unit_row cfg s r p5 \<noteq> Inl IndexError"
    using unit_row_error [of cfg s r p5 IndexError] by auto
qed

theorem paras_nonempty_witness:
  "isNotBlank (Some (u ''sand and gravel'')) \<and>
   paras (u ''sand and gravel'') = Inr [u ''sand and gravel'']"
  using paras_nonempty [of "u ''sand and gravel''"]
  by (simp add: string_eval)

text \<open>
  Claim C7 as it was stated, for every description text, fails for the empty text, which
  the guard keeps away from the step: \<^verbatim>\<open>''.splitlines()\<close> is the empty list, so a
  text without any break marker gives no paragraph at all.
\<close>

theorem paras_of_empty_text:
  "\<not> contains (u ''<br>'') [] \<and> \<not> contains (u ''<p>'') [] \<and> paras [] = Inr []"
  by (simp add: string_eval paras_def)

text \<open>
  Claim C6: the split follows a fixed priority.  A text that contains \<^verbatim>\<open><br>\<close> is
  split on \<^verbatim>\<open><br>\<close> only: joining the pieces with \<^verbatim>\<open><br>\<close> gives the text
  back and no piece contains \<^verbatim>\<open><br>\<close>.  Otherwise a text that contains
  \<^verbatim>\<open><p>\<close> is split on \<^verbatim>\<open><p>\<close> in the same sense, and the occurrences of
  \<^verbatim>\<open></p>\<close> are then deleted from each piece.  Otherwise the text is split at its
  line-break characters.
\<close>

theorem paras_priority:
  "(contains (u ''<br>'') d \<longrightarrow>
      paras d = Inr (split_on (u ''<br>'') d) \<and>
      py_join (u ''<br>'') (split_on (u ''<br>'') d) = d \<and>
      (\<forall>t\<in>set (split_on (u ''<br>'') d). \<not> contains (u ''<br>'') t)) \<and>
   (\<not> contains (u ''<br>'') d \<and> contains (u ''<p>'') d \<longrightarrow>
      paras d = Inr (map (\<lambda>t. replace_all (u ''</p>'') [] t) (split_on (u ''<p>'') d)) \<and>
      py_join (u ''<p>'') (split_on (u ''<p>'') d) = d \<and>
      (\<forall>t\<in>set (split_on (u ''<p>'') d). \<not> contains (u ''<p>'') t)) \<and>
   (\<not> contains (u ''<br>'') d \<and> \<not> contains (u ''<p>'') d \<longrightarrow> paras d = Inr (splitlines d))"
  using split_on_pieces [OF marker_nonempty(1), of _ d] split_on_pieces [OF marker_nonempty(2), of _ d]
  by (simp add: paras_cases split_on_join marker_nonempty)

theorem paras_priority_witness:
  "contains (u ''<br>'') (u ''<b>Basalt</b> flows<br>locally vesicular<p>'') \<and>
   paras (u ''<b>Basalt</b> flows<br>locally vesicular<p>'')
     = Inr [u ''<b>Basalt</b> flows'', u ''locally vesicular<p>''] \<and>
   \<not> contains (u ''<br>'') (u ''Sand</p><p>Gravel</p>'') \<and>
   contains (u ''<p>'') (u ''Sand</p><p>Gravel</p>'') \<and>
   paras (u ''Sand</p><p>Gravel</p>'') = Inr [u ''Sand'', u ''Gravel''] \<and>
   \<not> contains (u ''<br>'') (u ''Sand'' @ [10] @ u ''Gravel'') \<and>
   \<not> contains (u ''<p>'') (u ''Sand'' @ [10] @ u ''Gravel'') \<and>
   paras (u ''Sand'' @ [10] @ u ''Gravel'') = Inr [u ''Sand'', u ''Gravel'']"
  using paras_priority [of "u ''<b>Basalt</b> flows<br>locally vesicular<p>''"]
    paras_priority [of "u ''Sand</p><p>Gravel</p>''"]
    paras_priority [of "u ''Sand'' @ [10] @ u ''Gravel''"]
  by (simp add: string_eval)

subsection \<open>Null sentinels in the description\<close>

lemma split_ws_from_spaces: "\<forall>c\<in>set t. is_space c \<Longrightarrow> split_ws_from [] t = []"
  by (induction t) auto

lemma notNullText_absent:
  assumes "d \<in> {None, Some [], Some (u ''#null''), Some (u ''#Null''), Some (u ''#'')}
           \<or> (d = Some t \<and> (\<forall>c\<in>set t. is_space c))"
  shows "\<not> notNullText d"
  using assms by (auto simp: notNullText_def split_ws_def split_ws_from_spaces)

lemma xml_text_append: "xml_text (a @ b) \<longleftrightarrow> xml_text a \<and> xml_text b"
  by (simp add: xml_text_def)

lemma xml_text_tabbed: "xml_text a \<Longrightarrow> xml_text (tabbed a p5)"
  by (simp add: tabbed_def Let_def xml_text_append) (simp add: xml_text_def xml_compatible_def)

lemma xml_text_parens: "xml_text a \<Longrightarrow> xml_text (u ''('' @ a @ u '')'')"
  by (simp add: xml_text_append) (simp add: xml_text_def xml_compatible_def u_def)

lemma leading_runs_value:
  assumes "xml_text abbrv2" and "xml_field (name r)" and "xml_field (age r)"
  shows "leading_runs abbrv2 r = Inr (label_name_age abbrv2 r)"
proof -
  have n: "(if isNotBlank (name r) then
              (case name r of
                 None \<Rightarrow> Inr []
               | Some n \<Rightarrow>
                   (case add_run n (Some (u ''DMUUnitNameAgetypestyle'')) of
                      Inl e \<Rightarrow> Inl e
                    | Inr x \<Rightarrow> Inr [x]))
            else Inr [])
      = Inr (case name r of
          None \<Rightarrow> []
        | Some n \<Rightarrow> if n = [] then [] else [new_run n (Some (u ''DMUUnitNameAgetypestyle''))])"
    using assms(2) by (cases "name r") (simp_all add: isNotBlank_iff xml_field_def add_run_ok)
  have a: "(if isNotBlank (age r) then
              (case age r of
                 None \<Rightarrow> Inr []
               | Some a \<Rightarrow>
                   (case add_run (u ''('' @ a @ u '')'') None of
                      Inl e \<Rightarrow> Inl e
                    | Inr x \<Rightarrow> Inr [x]))
            else Inr [])
      = Inr (case age r of
          None \<Rightarrow> []
        | Some a \<Rightarrow> if a = [] then [] else [new_run (u ''('' @ a @ u '')'') None])"
    using assms(3)
    by (cases "age r") (simp_all add: isNotBlank_iff xml_field_def add_run_ok xml_text_parens)
  show ?thesis
    unfolding leading_runs_def n a by (simp add: add_run_ok [OF assms(1)] label_name_age_def)
qed

lemma describe_sentinel:
  assumes "d \<in> {u ''#null'', u ''#Null'', u ''#''}"
  shows "describe unit d =
     Inr [unit\<lparr>runs := runs unit @ [new_run emDash None, new_run d None]\<rparr>]"
  using assms
  by (auto simp: describe_def paras_cases emDash_def string_eval catalog_eval res_def
      formatting_runs_def add_formatting_def add_run_def xml_text_def xml_compatible_def Let_def)

text \<open>
  Claim C9, as amended.  A heading row whose name is a text that \<^verbatim>\<open>add_run\<close>
  accepts and whose description is \<^verbatim>\<open>None\<close>, empty, \<^verbatim>\<open>#null\<close>,
  \<^verbatim>\<open>#Null\<close>, \<^verbatim>\<open>#\<close> or only white space adds its heading paragraph, with the
  runs of the name, and no headnote paragraph.  For a unit row let the abbreviation be
  available and let \<^verbatim>\<open>add_run\<close> accept the abbreviation, the name and the age.
  When the script is not making a list of map units (\<^verbatim>\<open>isLMU\<close> is false) and the
  description is \<^verbatim>\<open>#null\<close>, \<^verbatim>\<open>#Null\<close> or \<^verbatim>\<open>#\<close>, the row adds one paragraph:
  the label, name and age runs, then the em dash run, then a plain run with the sentinel
  text.  When the script is making a list of map units, the row adds one paragraph with
  the label, name and age runs and nothing else, whatever its description.
\<close>

theorem sentinel_descriptions:
  "(paragraphstyle r = Some p5 \<and> py_find p5 (u ''DMU-Heading'') > - 1 \<and> name r = Some n \<and>
    xml_text n \<and>
    (description r \<in> {None, Some [], Some (u ''#null''), Some (u ''#Null''), Some (u ''#'')}
     \<or> (description r = Some t \<and> (\<forall>c\<in>set t. is_space c)))
    \<longrightarrow> (\<exists>rs. formatting_runs (Some n) = Inr rs \<and>
          process_row cfg s r = Inr (s\<lparr>document := document s @ [\<lparr>pstyle = Some p5, runs = rs\<rparr>]\<rparr>)))
   \<and>
   (paragraphstyle r = Some p5 \<and> \<not> py_find p5 (u ''DMU-Heading'') > - 1
      \<and> py_find p5 (u ''DMUUnit'') > - 1 \<and> \<not> isLMU cfg \<and> choose_abbrv cfg s r = Some a
      \<and> xml_text a \<and> xml_field (name r) \<and> xml_field (age r)
      \<and> description r = Some d \<and> d \<in> {u ''#null'', u ''#Null'', u ''#''}
    \<longrightarrow> (\<exists>s' unit. process_row cfg s r = Inr s' \<and> document s' = document s @ [unit]
          \<and> runs unit = label_name_age (tabbed a p5) r @ [new_run emDash None, new_run d None]))
   \<and>
   (paragraphstyle r = Some p5 \<and> \<not> py_find p5 (u ''DMU-Heading'') > - 1
      \<and> py_find p5 (u ''DMUUnit'') > - 1 \<and> isLMU cfg \<and> choose_abbrv cfg s r = Some a
      \<and> xml_text a \<and> xml_field (name r) \<and> xml_field (age r)
    \<longrightarrow> (\<exists>s' unit. process_row cfg s r = Inr s' \<and> document s' = document s @ [unit]
          \<and> runs unit = label_name_age (tabbed a p5) r))"
proof (intro conjI impI)
  assume a: "paragraphstyle r = Some p5 \<and> py_find p5 (u ''DMU-Heading'') > - 1 \<and> name r = Some n \<and>
    xml_text n \<and>
    (description r \<in> {None, Some [], Some (u ''#null''), Some (u ''#Null''), Some (u ''#'')}
     \<or> (description r = Some t \<and> (\<forall>c\<in>set t. is_space c)))"
  then have absent: "\<not> notNullText (description r)"
    using notNullText_absent [of "description r" t] by blast
  from a obtain rs where rs: "formatting_runs (Some n) = Inr rs"
    using formatting_runs_total by blast
  with a absent show "\<exists>rs. formatting_runs (Some n) = Inr rs \<and>
      process_row cfg s r = Inr (s\<lparr>document := document s @ [\<lparr>pstyle = Some p5, runs = rs\<rparr>]\<rparr>)"
    by (simp add: process_row_def heading_row_def add_formatting_def add_paragraph_None)
next
  assume a: "paragraphstyle r = Some p5 \<and> \<not> py_find p5 (u ''DMU-Heading'') > - 1
      \<and> py_find p5 (u ''DMUUnit'') > - 1 \<and> \<not> isLMU cfg \<and> choose_abbrv cfg s r = Some a
      \<and> xml_text a \<and> xml_field (name r) \<and> xml_field (age r)
      \<and> description r = Some d \<and> d \<in> {u ''#null'', u ''#Null'', u ''#''}"
  then have d: "d \<in> {u ''#null'', u ''#Null'', u ''#''}" by simp
  then have "d \<noteq> []" by (auto simp: u_def)
  with a have blank: "isNotBlank (description r)"
    by (simp add: isNotBlank_iff)
  from a have leading: "leading_runs (tabbed a p5) r = Inr (label_name_age (tabbed a p5) r)"
    by (intro leading_runs_value xml_text_tabbed) simp_all
  from a blank leading describe_sentinel [OF d]
  show "\<exists>s' unit. process_row cfg s r = Inr s' \<and> document s' = document s @ [unit]
          \<and> runs unit = label_name_age (tabbed a p5) r @ [new_run emDash None, new_run d None]"
    by (simp add: process_row_def unit_row_def Let_def)
next
  assume a: "paragraphstyle r = Some p5 \<and> \<not> py_find p5 (u ''DMU-Heading'') > - 1
      \<and> py_find p5 (u ''DMUUnit'') > - 1 \<and> isLMU cfg \<and> choose_abbrv cfg s r = Some a
      \<and> xml_text a \<and> xml_field (name r) \<and> xml_field (age r)"
  then have leading: "leading_runs (tabbed a p5) r = Inr (label_name_age (tabbed a p5) r)"
    by (intro leading_runs_value xml_text_tabbed) simp_all
  from a leading
  show "\<exists>s' unit. process_row cfg s r = Inr s' \<and> document s' = document s @ [unit]
          \<and> runs unit = label_name_age (tabbed a p5) r"
    by (simp add: process_row_def unit_row_def Let_def)
qed

theorem sentinel_descriptions_witness:
  "py_find (u ''DMU-Heading2'') (u ''DMU-Heading'') > - 1 \<and>
   \<not> py_find (u ''DMUUnit1'') (u ''DMU-Heading'') > - 1 \<and>
   py_find (u ''DMUUnit1'') (u ''DMUUnit'') > - 1 \<and>
   xml_text (u ''SURFICIAL DEPOSITS'') \<and> xml_text (u ''Qal'') \<and>
   xml_field (Some (u ''Alluvium'')) \<and> xml_field (Some (u ''Holocene'')) \<and>
   process_row ex_cfg ex_state (ex_heading\<lparr>description := Some (u ''#null'')\<rparr>) =
     Inr (ex_state\<lparr>document :=
       [ex_doc_title,
        \<lparr>pstyle = Some (u ''DMU-Heading2''), runs = [new_run (u ''SURFICIAL DEPOSITS'') None]\<rparr>]\<rparr>) \<and>
   process_row ex_cfg ex_state (ex_qal\<lparr>description := Some (u ''#null'')\<rparr>) =
     Inr \<lparr>lastParaWasHeading = False, abbrv = Some (u ''Qal'' @ [9]),
          document =
            [ex_doc_title,
             \<lparr>pstyle = Some (u ''DMUUnit1''),
              runs = [new_run (u ''Qal'' @ [9]) (Some (u ''DMUUnitLabeltypestyle'')),
                      new_run (u ''Alluvium'') (Some (u ''DMUUnitNameAgetypestyle'')),
                      new_run (u ''(Holocene)'') None,
                      new_run emDash None,
                      new_run (u ''#null'') None]\<rparr>]\<rparr> \<and>
   process_row ex_cfg_lmu ex_state (ex_qal\<lparr>description := Some (u ''#null'')\<rparr>) =
     Inr \<lparr>lastParaWasHeading = False, abbrv = Some (u ''Qal'' @ [9]),
          document =
            [ex_doc_title,
             \<lparr>pstyle = Some (u ''DMUUnit1''),
              runs = [new_run (u ''Qal'' @ [9]) (Some (u ''DMUUnitLabeltypestyle'')),
                      new_run (u ''Alluvium'') (Some (u ''DMUUnitNameAgetypestyle'')),
                      new_run (u ''(Holocene)'') None]\<rparr>]\<rparr>"
  using sentinel_descriptions [where r = "ex_heading\<lparr>description := Some (u ''#null'')\<rparr>"
      and ?p5.0 = "u ''DMU-Heading2''" and n = "u ''SURFICIAL DEPOSITS''" and t = "[]"
      and cfg = ex_cfg and s = ex_state and a = "[]" and d = "[]"]
    sentinel_descriptions [where r = "ex_qal\<lparr>description := Some (u ''#null'')\<rparr>"
      and ?p5.0 = "u ''DMUUnit1''" and n = "[]" and t = "[]"
      and cfg = ex_cfg and s = ex_state and a = "u ''Qal''" and d = "u ''#null''"]
    sentinel_descriptions [where r = "ex_qal\<lparr>description := Some (u ''#null'')\<rparr>"
      and ?p5.0 = "u ''DMUUnit1''" and n = "[]" and t = "[]"
      and cfg = ex_cfg_lmu and s = ex_state and a = "u ''Qal''" and d = "[]"]
  by (simp add: xml_field_def sample_eval string_eval catalog_eval formatting_eval script_eval)

text \<open>
  Claim C9 as it was stated, without the condition on \<^verbatim>\<open>isLMU\<close>, fails: for a list
  of map units the test \<^verbatim>\<open>isNotBlank(row[4]) and not isLMU\<close> is false, and the
  unit with the description \<^verbatim>\<open>#null\<close> gets neither the em dash nor the sentinel
  text.
\<close>

theorem sentinel_in_list_mode:
  "main ex_argv_lmu [ex_title, ex_qal\<lparr>description := Some (u ''#null'')\<rparr>] =
     Inr [\<lparr>pstyle = Some (u ''DMU-Heading1''), runs = [new_run (u ''LIST OF MAP UNITS'') None]\<rparr>,
          \<lparr>pstyle = Some (u ''DMUUnit1''),
           runs = [new_run (u ''Qal'' @ [9]) (Some (u ''DMUUnitLabeltypestyle'')),
                   new_run (u ''Alluvium'') (Some (u ''DMUUnitNameAgetypestyle'')),
                   new_run (u ''(Holocene)'') None]\<rparr>]"
  by (simp add: sample_eval string_eval catalog_eval formatting_eval script_eval)

subsection \<open>Unterminated tags\<close>

text \<open>
  Claim C2: a text with an opening marker and no closing marker after it should come out
  as plain text that still holds the literal marker, in one run.  The script does not test
  the \<open>-1\<close> that \<^verbatim>\<open>find\<close> returns: for \<^verbatim>\<open><b>abc\<close> the slice
  \<^verbatim>\<open>ptext[3:-1]\<close> gives a bold run \<^verbatim>\<open>ab\<close>, and the untagged slice, which
  starts at \<open>-1 + 4\<close>, gives a plain run \<^verbatim>\<open>abc\<close>.  The marker is gone and part of
  the content appears twice.
\<close>

theorem unterminated_bold_runs:
  "formatting_runs (Some (u ''<b>abc'')) =
     Inr [(new_run (u ''ab'') None)\<lparr>bold := True\<rparr>, new_run (u ''abc'') None]"
  by (simp add: string_eval catalog_eval formatting_eval)

subsection \<open>The style of a unit after a heading\<close>

text \<open>
  Claim C3: a unit row right after a heading row should get the style
  \<^verbatim>\<open>DMUUnit11stafterheading\<close>.  The flag \<^verbatim>\<open>lastParaWasHeading\<close> is only
  assigned inside the unit branch, from a test for \<^verbatim>\<open>Head\<close> in the unit's own
  style, so a heading row never sets it: the unit after the heading is written with its
  own style \<^verbatim>\<open>DMUUnit1\<close>.
\<close>

theorem unit_after_heading_keeps_own_style:
  "main ex_argv [ex_title, ex_heading, ex_qal] =
     Inr [ex_doc_title,
          \<lparr>pstyle = Some (u ''DMU-Heading2''), runs = [new_run (u ''SURFICIAL DEPOSITS'') None]\<rparr>,
          \<lparr>pstyle = Some (u ''DMUUnit1''),
           runs = [new_run (u ''Qal'' @ [9]) (Some (u ''DMUUnitLabeltypestyle'')),
                   new_run (u ''Alluvium'') (Some (u ''DMUUnitNameAgetypestyle'')),
                   new_run (u ''(Holocene)'') None]\<rparr>]"
  by (simp add: sample_eval string_eval catalog_eval formatting_eval script_eval)

subsection \<open>The first row\<close>

text \<open>
  Claim C4: a first row whose name is not a title placeholder should be handled like any
  other row.  The script takes the first row off the cursor with \<^verbatim>\<open>next()\<close> and the
  loop starts at the second row, so a unit in the first row leaves no paragraph: the
  document holds the title only.
\<close>

theorem first_row_unit_is_dropped:
  "main ex_argv [ex_qal] = Inr [ex_doc_title]"
  by (simp add: sample_eval string_eval catalog_eval formatting_eval script_eval)

subsection \<open>A unit without abbreviation\<close>

text \<open>
  Claim C5: a unit row with neither abbreviation field filled in should give an empty
  label or be skipped with a warning, and never stop the run.  The script assigns
  \<^verbatim>\<open>abbrv\<close> only when the selected field is not null.  For the first unit of the
  table the variable is then unbound and the run ends with a NameError; for a later unit
  it still holds the label of the unit before, tab included, which becomes the label of
  this unit.  The row \<open>ex_qt\<close> has \<^verbatim>\<open>None\<close> in both fields.
\<close>

theorem unit_without_label:
  "mapunit ex_qt = None \<and> label ex_qt = None \<and>
   main ex_argv [ex_title, ex_qt] = Inl (NameError (u ''abbrv'')) \<and>
   main ex_argv [ex_title, ex_qal, ex_qt] =
     Inr [ex_doc_title,
          \<lparr>pstyle = Some (u ''DMUUnit1''),
           runs = [new_run (u ''Qal'' @ [9]) (Some (u ''DMUUnitLabeltypestyle'')),
                   new_run (u ''Alluvium'') (Some (u ''DMUUnitNameAgetypestyle'')),
                   new_run (u ''(Holocene)'') None]\<rparr>,
          \<lparr>pstyle = Some (u ''DMUUnit1''),
           runs = [new_run (u ''Qal'' @ [9, 9]) (Some (u ''DMUUnitLabeltypestyle'')),
                   new_run (u ''Terrace deposits'') (Some (u ''DMUUnitNameAgetypestyle''))]\<rparr>]"
  by (simp add: sample_eval string_eval catalog_eval formatting_eval script_eval)

subsection \<open>The run of the age\<close>

text \<open>
  Claim C8: the age run should carry the character style
  \<^verbatim>\<open>DMUUnitNameAgetypestyle\<close>, as the name run does.  In the script the style name
  is an argument of \<^verbatim>\<open>format\<close>, not of \<^verbatim>\<open>add_run\<close>, so the age run has no
  character style.
\<close>

theorem age_run_has_no_style:
  "main ex_argv [ex_title, ex_qal] =
     Inr [ex_doc_title,
          \<lparr>pstyle = Some (u ''DMUUnit1''),
           runs = [new_run (u ''Qal'' @ [9]) (Some (u ''DMUUnitLabeltypestyle'')),
                   new_run (u ''Alluvium'') (Some (u ''DMUUnitNameAgetypestyle'')),
                   \<lparr>rtext = u ''(Holocene)'', rstyle = None, bold = False, italic = False,
                    superscript = False, subscript = False\<rparr>]\<rparr>]"
  by (simp add: sample_eval string_eval catalog_eval formatting_eval script_eval)

end
